theory Spec2Isabelle
  imports
    Main
    "HOL-Library.Word"
    "HOL-Library.Signed_Division"
    "HOL-Library.Char_ord"
    "HOL-Library.List_Lexorder"
begin

section \<open>Common conventions\<close>

text \<open>
  The two packages \<^verbatim>\<open>pkg/rle\<close> and \<^verbatim>\<open>pkg/delta-encoding\<close> are embedded side by side.
  Both declare a \<^verbatim>\<open>Row\<close> with fields \<^verbatim>\<open>ID\<close>, \<^verbatim>\<open>Value\<close>, \<^verbatim>\<open>TS\<close>, an
  \<^verbatim>\<open>idList\<close>, an \<^verbatim>\<open>AppendRow\<close> and a \<^verbatim>\<open>ReconstructRow\<close>; those names carry the prefix
  \<open>rle_\<close> or \<open>de_\<close> here, every other name is the source's.

  Go's \<^verbatim>\<open>int\<close> (row ids, counts, offsets, indices) is \<open>int\<close>: every such number is a
  row id tested against a slice length before it is used, or is bounded by the number of
  appended rows, so none of the additions below can leave the machine range. Go's
  \<^verbatim>\<open>int64\<close> columns of the delta encoder are \<open>64 word\<close>: their subtraction and addition
  wrap around as in Go. Go's \<^verbatim>\<open>/\<close> and \<^verbatim>\<open>%\<close> truncate towards zero (\<open>sdiv\<close>, \<open>smod\<close>)
  and panic on a zero divisor. Go strings compare bytewise and lexicographically, which
  is the order of \<open>string\<close> from \<open>List_Lexorder\<close> and \<open>Char_ord\<close>.

  A result is \<open>error + 'a\<close>. \<open>RowNotFound\<close> and \<open>KeyNotFound\<close> are the two error
  values the code returns (built with \<^verbatim>\<open>fmt.Errorf\<close>); \<open>Panic\<close> is a run-time panic of
  Go, which no function of these packages recovers.
\<close>

datatype panic = IndexOutOfRange | DivideByZero

datatype error = RowNotFound int | KeyNotFound string | Panic panic

text \<open>A slice read \<^verbatim>\<open>xs[i]\<close>: Go panics when the index is outside \<open>[0, len)\<close>.\<close>

definition index :: "'a list \<Rightarrow> int \<Rightarrow> error + 'a" where
  "index xs i =
     (if 0 \<le> i \<and> i < int (length xs) then Inr (xs ! nat i)
      else Inl (Panic IndexOutOfRange))"

section \<open>Package rle\<close>

record rle_Row =
  rle_ID :: int
  rle_Value :: int
  rle_TS :: string

record TSRun =
  ts :: string
  count :: int

record RLE =
  rle_idList :: "int list"
  valueList :: "int list"
  TSRuns :: "TSRun list"
  tsRunEnds :: "int list"

definition InitRLE :: RLE where
  "InitRLE = \<lparr>rle_idList = [], valueList = [], TSRuns = [], tsRunEnds = []\<rparr>"

text \<open>
  \<^verbatim>\<open>AppendRow\<close>. The two columns are pushed first. The test of the last run reads
  \<^verbatim>\<open>TSRuns[len-1]\<close> only when \<^verbatim>\<open>TSRuns\<close> is not empty (short-circuit \<^verbatim>\<open>||\<close>). In the
  merging branch \<^verbatim>\<open>tsRunEnds[len(tsRunEnds)-1]++\<close> panics when \<^verbatim>\<open>tsRunEnds\<close> is empty.
\<close>

definition rle_AppendRow :: "RLE \<Rightarrow> rle_Row \<Rightarrow> error + RLE" where
  "rle_AppendRow rle row =
     (let rle1 = rle\<lparr>rle_idList := rle_idList rle @ [rle_ID row],
                     valueList := valueList rle @ [rle_Value row]\<rparr>;
          n = length (TSRuns rle1)
      in if n = 0 \<or> ts (TSRuns rle1 ! (n - 1)) \<noteq> rle_TS row then
           let rle2 = rle1\<lparr>TSRuns := TSRuns rle1 @ [\<lparr>ts = rle_TS row, count = 1\<rparr>]\<rparr>;
               m = length (tsRunEnds rle2)
           in if m = 0 then Inr (rle2\<lparr>tsRunEnds := tsRunEnds rle2 @ [1]\<rparr>)
              else Inr (rle2\<lparr>tsRunEnds := tsRunEnds rle2 @ [tsRunEnds rle2 ! (m - 1) + 1]\<rparr>)
         else
           let r = TSRuns rle1 ! (n - 1);
               rle2 = rle1\<lparr>TSRuns := (TSRuns rle1)[n - 1 := r\<lparr>count := count r + 1\<rparr>]\<rparr>;
               m = length (tsRunEnds rle2)
           in if m = 0 then Inl (Panic IndexOutOfRange)
              else Inr (rle2\<lparr>tsRunEnds :=
                          (tsRunEnds rle2)[m - 1 := tsRunEnds rle2 ! (m - 1) + 1]\<rparr>))"

text \<open>A sequence of \<^verbatim>\<open>AppendRow\<close> calls, in order; a panic ends it.\<close>

fun rle_AppendRows :: "RLE \<Rightarrow> rle_Row list \<Rightarrow> error + RLE" where
  "rle_AppendRows rle [] = Inr rle"
| "rle_AppendRows rle (row # rows) =
     (case rle_AppendRow rle row of
        Inl e \<Rightarrow> Inl e
      | Inr rle' \<Rightarrow> rle_AppendRows rle' rows)"

text \<open>
  \<^verbatim>\<open>GetTSFromRowID\<close>: the range test, then the \<^verbatim>\<open>range\<close> loop over the runs with the
  working \<^verbatim>\<open>rowID\<close> decreased by each run passed.
\<close>

fun GetTSFromRowID_loop :: "TSRun list \<Rightarrow> int \<Rightarrow> string" where
  "GetTSFromRowID_loop [] rowID = ''''"
| "GetTSFromRowID_loop (entry # entries) rowID =
     (if count entry \<ge> rowID then ts entry
      else GetTSFromRowID_loop entries (rowID - count entry))"

definition GetTSFromRowID :: "RLE \<Rightarrow> int \<Rightarrow> error + string" where
  "GetTSFromRowID rle rowID =
     (if rowID \<le> 0 \<or> rowID > int (length (rle_idList rle)) then Inr ''''
      else Inr (GetTSFromRowID_loop (TSRuns rle) rowID))"

text \<open>
  \<^verbatim>\<open>GetTSFromRowIDFaster\<close>: the range test reads \<^verbatim>\<open>tsRunEnds[len(tsRunEnds)-1]\<close> unless
  \<^verbatim>\<open>rowID <= 0\<close> already decided it; then the binary search, then \<^verbatim>\<open>TSRuns[low]\<close>.
\<close>

function GetTSFromRowIDFaster_loop :: "int list \<Rightarrow> int \<Rightarrow> int \<Rightarrow> int \<Rightarrow> error + int" where
  "GetTSFromRowIDFaster_loop ends rowID low high =
     (if low \<le> high then
        let mid = (low + high) sdiv 2
        in (case index ends mid of
              Inl e \<Rightarrow> Inl e
            | Inr v \<Rightarrow>
                if v \<ge> rowID then GetTSFromRowIDFaster_loop ends rowID low (mid - 1)
                else GetTSFromRowIDFaster_loop ends rowID (mid + 1) high)
      else Inr low)"
  by pat_completeness auto
termination
proof (relation "measure (\<lambda>(ends, rowID, low, high). nat (high - low + 1))")
  show "wf (measure (\<lambda>(ends, rowID, low, high). nat (high - low + 1)))"
    by simp
next
  fix ends :: "int list" and rowID low high mid :: int and v :: int
  assume "low \<le> high" and "mid = (low + high) sdiv 2" and "index ends mid = Inr v"
  then have "0 \<le> mid" and "mid \<le> high"
    by (auto simp: index_def signed_divide_int_def sgn_if split: if_splits)
  then show "((ends, rowID, low, mid - 1), ends, rowID, low, high)
      \<in> measure (\<lambda>(ends, rowID, low, high). nat (high - low + 1))"
    using \<open>low \<le> high\<close> by simp
next
  fix ends :: "int list" and rowID low high mid :: int and v :: int
  assume "low \<le> high" and "mid = (low + high) sdiv 2" and "index ends mid = Inr v"
  then have "low \<le> mid"
    by (auto simp: index_def signed_divide_int_def sgn_if split: if_splits)
  then show "((ends, rowID, mid + 1, high), ends, rowID, low, high)
      \<in> measure (\<lambda>(ends, rowID, low, high). nat (high - low + 1))"
    using \<open>low \<le> high\<close> by simp
qed

definition GetTSFromRowIDFaster :: "RLE \<Rightarrow> int \<Rightarrow> error + string" where
  "GetTSFromRowIDFaster rle rowID =
     (if rowID \<le> 0 then Inr ''''
      else case index (tsRunEnds rle) (int (length (tsRunEnds rle)) - 1) of
             Inl e \<Rightarrow> Inl e
           | Inr lastEnd \<Rightarrow>
               if rowID > lastEnd then Inr ''''
               else (case GetTSFromRowIDFaster_loop (tsRunEnds rle) rowID 0
                            (int (length (tsRunEnds rle)) - 1) of
                       Inl e \<Rightarrow> Inl e
                     | Inr low \<Rightarrow>
                         (case index (TSRuns rle) low of
                            Inl e \<Rightarrow> Inl e
                          | Inr run \<Rightarrow> Inr (ts run))))"

text \<open>\<^verbatim>\<open>ReconstructRow\<close> of the RLE encoder.\<close>

definition rle_ReconstructRow :: "RLE \<Rightarrow> int \<Rightarrow> error + rle_Row" where
  "rle_ReconstructRow rle rowID =
     (if rowID \<le> 0 \<or> rowID > int (length (rle_idList rle)) then Inl (RowNotFound rowID)
      else case GetTSFromRowIDFaster rle rowID of
             Inl e \<Rightarrow> Inl e
           | Inr t \<Rightarrow>
               (case index (rle_idList rle) (rowID - 1) of
                  Inl e \<Rightarrow> Inl e
                | Inr i \<Rightarrow>
                    (case index (valueList rle) (rowID - 1) of
                       Inl e \<Rightarrow> Inl e
                     | Inr v \<Rightarrow> Inr \<lparr>rle_ID = i, rle_Value = v, rle_TS = t\<rparr>)))"

text \<open>\<^verbatim>\<open>GetCountofTS\<close>: the first run with the key.\<close>

fun GetCountofTS_loop :: "TSRun list \<Rightarrow> string \<Rightarrow> error + int" where
  "GetCountofTS_loop [] k = Inl (KeyNotFound k)"
| "GetCountofTS_loop (entry # entries) k =
     (if ts entry = k then Inr (count entry) else GetCountofTS_loop entries k)"

definition GetCountofTS :: "RLE \<Rightarrow> string \<Rightarrow> error + int" where
  "GetCountofTS rle k = GetCountofTS_loop (TSRuns rle) k"

text \<open>\<^verbatim>\<open>GetCountofTSFaster\<close>: binary search of \<^verbatim>\<open>TSRuns\<close> by key.\<close>

function GetCountofTSFaster_loop :: "TSRun list \<Rightarrow> string \<Rightarrow> int \<Rightarrow> int \<Rightarrow> error + int" where
  "GetCountofTSFaster_loop runs k low high =
     (if low \<le> high then
        let mid = (low + high) sdiv 2
        in (case index runs mid of
              Inl e \<Rightarrow> Inl e
            | Inr run \<Rightarrow>
                if ts run = k then Inr (count run)
                else if ts run < k then GetCountofTSFaster_loop runs k (mid + 1) high
                else GetCountofTSFaster_loop runs k low (mid - 1))
      else Inl (KeyNotFound k))"
  by pat_completeness auto
termination
proof (relation "measure (\<lambda>(runs, k, low, high). nat (high - low + 1))")
  show "wf (measure (\<lambda>(runs, k, low, high). nat (high - low + 1)))"
    by simp
next
  fix runs :: "TSRun list" and k :: string and low high mid :: int and run :: TSRun
  assume "low \<le> high" and "mid = (low + high) sdiv 2" and "index runs mid = Inr run"
  then have "low \<le> mid"
    by (auto simp: index_def signed_divide_int_def sgn_if split: if_splits)
  then show "((runs, k, mid + 1, high), runs, k, low, high)
      \<in> measure (\<lambda>(runs, k, low, high). nat (high - low + 1))"
    using \<open>low \<le> high\<close> by simp
next
  fix runs :: "TSRun list" and k :: string and low high mid :: int and run :: TSRun
  assume "low \<le> high" and "mid = (low + high) sdiv 2" and "index runs mid = Inr run"
  then have "mid \<le> high"
    by (auto simp: index_def signed_divide_int_def sgn_if split: if_splits)
  then show "((runs, k, low, mid - 1), runs, k, low, high)
      \<in> measure (\<lambda>(runs, k, low, high). nat (high - low + 1))"
    using \<open>low \<le> high\<close> by simp
qed

definition GetCountofTSFaster :: "RLE \<Rightarrow> string \<Rightarrow> error + int" where
  "GetCountofTSFaster rle k =
     GetCountofTSFaster_loop (TSRuns rle) k 0 (int (length (TSRuns rle)) - 1)"

section \<open>Package delta-encoding\<close>

record de_Row =
  de_ID :: int
  de_Value :: "64 word"
  de_TS :: "64 word"

record DeltaEncoding =
  de_idList :: "int list"
  deltaValueList :: "64 word list"
  deltaTsList :: "64 word list"
  originalRows :: "de_Row list"
  lastValue :: "64 word"
  lastTs :: "64 word"
  checkpointInterval :: int
  checkpointValues :: "64 word list"
  checkpointTs :: "64 word list"

text \<open>\<^verbatim>\<open>InitDE\<close> leaves \<^verbatim>\<open>originalRows\<close> at its zero value, the nil slice of length 0.\<close>

definition InitDE :: DeltaEncoding where
  "InitDE = \<lparr>de_idList = [], deltaValueList = [], deltaTsList = [], originalRows = [],
             lastValue = 0, lastTs = 0, checkpointInterval = 4,
             checkpointValues = [], checkpointTs = []\<rparr>"

text \<open>
  \<^verbatim>\<open>AppendRow\<close>. The checkpoint test \<^verbatim>\<open>len(de.idList) % de.checkpointInterval\<close> is
  evaluated after the row has been pushed and panics when the interval is 0.
\<close>

definition de_AppendRow :: "DeltaEncoding \<Rightarrow> de_Row \<Rightarrow> error + DeltaEncoding" where
  "de_AppendRow de row =
     (let de1 =
            (if length (de_idList de) = 0 then
               de\<lparr>deltaValueList := deltaValueList de @ [0],
                  deltaTsList := deltaTsList de @ [0],
                  checkpointValues := checkpointValues de @ [de_Value row],
                  checkpointTs := checkpointTs de @ [de_TS row]\<rparr>
             else
               de\<lparr>deltaValueList := deltaValueList de @ [de_Value row - lastValue de],
                  deltaTsList := deltaTsList de @ [de_TS row - lastTs de]\<rparr>);
          de2 = de1\<lparr>de_idList := de_idList de1 @ [de_ID row],
                    lastValue := de_Value row,
                    lastTs := de_TS row,
                    originalRows := originalRows de1 @ [row]\<rparr>
      in if checkpointInterval de2 = 0 then Inl (Panic DivideByZero)
         else if int (length (de_idList de2)) smod checkpointInterval de2 = 0 then
           Inr (de2\<lparr>checkpointValues := checkpointValues de2 @ [de_Value row],
                    checkpointTs := checkpointTs de2 @ [de_TS row]\<rparr>)
         else Inr de2)"

fun de_AppendRows :: "DeltaEncoding \<Rightarrow> de_Row list \<Rightarrow> error + DeltaEncoding" where
  "de_AppendRows de [] = Inr de"
| "de_AppendRows de (row # rows) =
     (case de_AppendRow de row of
        Inl e \<Rightarrow> Inl e
      | Inr de' \<Rightarrow> de_AppendRows de' rows)"

text \<open>
  \<^verbatim>\<open>ReconstructRow\<close>: the loop \<^verbatim>\<open>for ind := ...; ind <= rowIndex; ind++\<close> adds the deltas
  to the running value and timestamp, which start at the checkpoint.
\<close>

function de_ReconstructRow_loop ::
  "64 word list \<Rightarrow> 64 word list \<Rightarrow> int \<Rightarrow> int \<Rightarrow> 64 word \<Rightarrow> 64 word
     \<Rightarrow> error + (64 word \<times> 64 word)" where
  "de_ReconstructRow_loop dvs dts rowIndex ind v t =
     (if ind \<le> rowIndex then
        (case index dvs ind of
           Inl e \<Rightarrow> Inl e
         | Inr dv \<Rightarrow>
             (case index dts ind of
                Inl e \<Rightarrow> Inl e
              | Inr dt \<Rightarrow> de_ReconstructRow_loop dvs dts rowIndex (ind + 1) (v + dv) (t + dt)))
      else Inr (v, t))"
  by pat_completeness auto
termination
  by (relation "measure (\<lambda>(dvs, dts, rowIndex, ind, v, t). nat (rowIndex + 1 - ind))") auto

definition de_ReconstructRow :: "DeltaEncoding \<Rightarrow> int \<Rightarrow> error + de_Row" where
  "de_ReconstructRow de rowID =
     (if rowID \<le> 0 \<or> rowID > int (length (de_idList de)) then Inl (RowNotFound rowID)
      else if checkpointInterval de = 0 then Inl (Panic DivideByZero)
      else
        let checkpointIndex = (rowID - 1) sdiv checkpointInterval de
        in (case index (checkpointValues de) checkpointIndex of
              Inl e \<Rightarrow> Inl e
            | Inr v \<Rightarrow>
                (case index (checkpointTs de) checkpointIndex of
                   Inl e \<Rightarrow> Inl e
                 | Inr t \<Rightarrow>
                     (case de_ReconstructRow_loop (deltaValueList de) (deltaTsList de)
                             (rowID - 1) (checkpointIndex * checkpointInterval de) v t of
                        Inl e \<Rightarrow> Inl e
                      | Inr (v', t') \<Rightarrow> Inr \<lparr>de_ID = rowID, de_Value = v', de_TS = t'\<rparr>))))"

text \<open>\<^verbatim>\<open>ReconstructTable\<close>: one \<^verbatim>\<open>ReconstructRow\<close> per stored id, the first error returned.\<close>

fun ReconstructTable_loop :: "DeltaEncoding \<Rightarrow> int list \<Rightarrow> de_Row list \<Rightarrow> error + de_Row list" where
  "ReconstructTable_loop de [] rows = Inr rows"
| "ReconstructTable_loop de (i # ids) rows =
     (case de_ReconstructRow de i of
        Inl e \<Rightarrow> Inl e
      | Inr row \<Rightarrow> ReconstructTable_loop de ids (rows @ [row]))"

definition ReconstructTable :: "DeltaEncoding \<Rightarrow> error + de_Row list" where
  "ReconstructTable de = ReconstructTable_loop de (de_idList de) []"

text \<open>
  \<^verbatim>\<open>VerifyDeltaEncodingCorrectness\<close>: a returned error gives \<^verbatim>\<open>false\<close>, a panic is not
  caught; the comparison runs over the indices of \<^verbatim>\<open>originalRows\<close> and reads
  \<^verbatim>\<open>deRows[ind]\<close> at each.
\<close>

fun Verify_loop :: "de_Row list \<Rightarrow> de_Row list \<Rightarrow> nat list \<Rightarrow> error + bool" where
  "Verify_loop deRows orig [] = Inr True"
| "Verify_loop deRows orig (ind # inds) =
     (case index deRows (int ind) of
        Inl e \<Rightarrow> Inl e
      | Inr r \<Rightarrow>
          (case index orig (int ind) of
             Inl e \<Rightarrow> Inl e
           | Inr r0 \<Rightarrow> if r \<noteq> r0 then Inr False else Verify_loop deRows orig inds))"

definition VerifyDeltaEncodingCorrectness :: "DeltaEncoding \<Rightarrow> error + bool" where
  "VerifyDeltaEncodingCorrectness de =
     (case ReconstructTable de of
        Inl (Panic p) \<Rightarrow> Inl (Panic p)
      | Inl _ \<Rightarrow> Inr False
      | Inr deRows \<Rightarrow> Verify_loop deRows (originalRows de) [0..<length (originalRows de)])"

section \<open>Invariants of the reachable states\<close>

text \<open>
  The definitions of this section are not code of the repository. They say what holds of
  every state that \<^verbatim>\<open>AppendRow\<close> calls build from a fresh encoder; the proofs below
  establish them, and the claims are stated on the code alone.

  The cumulative offsets of a sequence of runs: entry \<open>i\<close> is \<open>acc\<close> plus the counts
  of the runs up to and including run \<open>i\<close>.
\<close>

fun run_ends :: "int \<Rightarrow> TSRun list \<Rightarrow> int list" where
  "run_ends acc [] = []"
| "run_ends acc (r # rs) = (acc + count r) # run_ends (acc + count r) rs"

text \<open>The key column a sequence of runs stands for: each key repeated \<open>count\<close> times.\<close>

fun expand :: "TSRun list \<Rightarrow> string list" where
  "expand [] = []"
| "expand (r # rs) = replicate (nat (count r)) (ts r) @ expand rs"

text \<open>
  The invariant of the RLE states reached from \<open>InitRLE\<close> by appending \<open>rows\<close>.
\<close>

definition rle_inv :: "rle_Row list \<Rightarrow> RLE \<Rightarrow> bool" where
  "rle_inv rows s \<longleftrightarrow>
     rle_idList s = map rle_ID rows \<and>
     valueList s = map rle_Value rows \<and>
     tsRunEnds s = run_ends 0 (TSRuns s) \<and>
     list_all (\<lambda>r. 1 \<le> count r) (TSRuns s) \<and>
     distinct_adj (map ts (TSRuns s)) \<and>
     sum_list (map count (TSRuns s)) = int (length rows) \<and>
     expand (TSRuns s) = map rle_TS rows \<and>
     (if rows = [] then TSRuns s = []
      else TSRuns s \<noteq> [] \<and> ts (last (TSRuns s)) = rle_TS (last rows))"

text \<open>
  The deltas of a column \<open>vs\<close>: 0 first, then each entry minus its predecessor (in 64-bit
  arithmetic).
\<close>

definition deltas_of :: "64 word list \<Rightarrow> 64 word list \<Rightarrow> bool" where
  "deltas_of vs ds \<longleftrightarrow>
     length ds = length vs \<and>
     (\<forall>i<length vs. ds ! i = (if i = 0 then 0 else vs ! i - vs ! (i - 1)))"

text \<open>
  The checkpoints of a column \<open>vs\<close> at interval \<open>c\<close>: none for the empty column, else
  \<open>1 + length vs div c\<close> of them; the first is the first entry, and checkpoint \<open>g > 0\<close> is
  the entry at index \<open>g * c - 1\<close>.
\<close>

definition checkpoints_of :: "nat \<Rightarrow> 64 word list \<Rightarrow> 64 word list \<Rightarrow> bool" where
  "checkpoints_of c vs cps \<longleftrightarrow>
     length cps = (if vs = [] then 0 else 1 + length vs div c) \<and>
     (\<forall>g<length cps. cps ! g = (if g = 0 then vs ! 0 else vs ! (g * c - 1)))"

text \<open>
  The invariant of the delta-encoder states reached by appending \<open>rows\<close> to a fresh encoder
  of interval \<open>c\<close> (\<open>InitDE\<close> has \<open>c = 4\<close>).
\<close>

definition de_inv :: "nat \<Rightarrow> de_Row list \<Rightarrow> DeltaEncoding \<Rightarrow> bool" where
  "de_inv c rows de \<longleftrightarrow>
     0 < c \<and> checkpointInterval de = int c \<and>
     de_idList de = map de_ID rows \<and> originalRows de = rows \<and>
     deltas_of (map de_Value rows) (deltaValueList de) \<and>
     deltas_of (map de_TS rows) (deltaTsList de) \<and>
     checkpoints_of c (map de_Value rows) (checkpointValues de) \<and>
     checkpoints_of c (map de_TS rows) (checkpointTs de) \<and>
     (rows \<noteq> [] \<longrightarrow> lastValue de = de_Value (last rows) \<and> lastTs de = de_TS (last rows))"

text \<open>
  The rows the package tests append (\<^verbatim>\<open>de_test.go\<close>, \<^verbatim>\<open>rle_test.go\<close>), used as the
  concrete inputs below.
\<close>

definition de_test_rows :: "de_Row list" where
  "de_test_rows =
     [\<lparr>de_ID = 1, de_Value = 10, de_TS = 1000\<rparr>,
      \<lparr>de_ID = 2, de_Value = 20, de_TS = 1002\<rparr>,
      \<lparr>de_ID = 3, de_Value = 30, de_TS = 1004\<rparr>,
      \<lparr>de_ID = 4, de_Value = 30, de_TS = 1006\<rparr>,
      \<lparr>de_ID = 5, de_Value = 20, de_TS = 1008\<rparr>,
      \<lparr>de_ID = 6, de_Value = 50, de_TS = 1010\<rparr>,
      \<lparr>de_ID = 7, de_Value = 10, de_TS = 1012\<rparr>,
      \<lparr>de_ID = 8, de_Value = 15, de_TS = 1014\<rparr>,
      \<lparr>de_ID = 9, de_Value = 10, de_TS = 1016\<rparr>,
      \<lparr>de_ID = 10, de_Value = 10, de_TS = 1018\<rparr>]"

definition rle_test_rows :: "rle_Row list" where
  "rle_test_rows =
     [\<lparr>rle_ID = 1, rle_Value = 100, rle_TS = ''10:00:00''\<rparr>,
      \<lparr>rle_ID = 2, rle_Value = 200, rle_TS = ''10:00:00''\<rparr>,
      \<lparr>rle_ID = 3, rle_Value = 300, rle_TS = ''10:00:02''\<rparr>,
      \<lparr>rle_ID = 4, rle_Value = 400, rle_TS = ''10:00:02''\<rparr>,
      \<lparr>rle_ID = 5, rle_Value = 500, rle_TS = ''10:00:02''\<rparr>,
      \<lparr>rle_ID = 6, rle_Value = 600, rle_TS = ''10:00:03''\<rparr>]"

declare GetTSFromRowIDFaster_loop.simps [simp del]
declare GetCountofTSFaster_loop.simps [simp del]
declare de_ReconstructRow_loop.simps [simp del]

section \<open>Arithmetic and slice reads\<close>

lemma sdiv_2_nonneg: "0 \<le> a \<Longrightarrow> a sdiv 2 = a div (2::int)"
  by (simp add: signed_divide_int_def sgn_if)

lemma mid_bounds:
  fixes low high :: int
  assumes "0 \<le> low" and "low \<le> high"
  shows "low \<le> (low + high) sdiv 2" and "(low + high) sdiv 2 \<le> high"
  using assms by (simp_all add: sdiv_2_nonneg)

lemma index_in_range: "0 \<le> i \<Longrightarrow> i < int (length xs) \<Longrightarrow> index xs i = Inr (xs ! nat i)"
  by (simp add: index_def)

lemma smod_nonneg: "0 \<le> a \<Longrightarrow> 0 < b \<Longrightarrow> a smod b = a mod (b::int)"
  by (simp add: signed_modulo_int_def sgn_if)

lemma sdiv_nonneg: "0 \<le> a \<Longrightarrow> 0 < b \<Longrightarrow> a sdiv b = a div (b::int)"
  by (simp add: signed_divide_int_def sgn_if)

section \<open>The RLE encoder: reachable states\<close>

lemma length_run_ends [simp]: "length (run_ends acc rs) = length rs"
  by (induction rs arbitrary: acc) auto

lemma run_ends_Nil_iff [simp]: "run_ends acc rs = [] \<longleftrightarrow> rs = []"
  by (cases rs) auto

lemma run_ends_snoc:
  "run_ends acc (rs @ [r]) = run_ends acc rs @ [acc + sum_list (map count rs) + count r]"
  by (induction rs arbitrary: acc) (auto simp: algebra_simps)

lemma run_ends_gt: "list_all (\<lambda>r. 1 \<le> count r) rs \<Longrightarrow> e \<in> set (run_ends acc rs) \<Longrightarrow> acc < e"
  by (induction rs arbitrary: acc) fastforce+

lemma run_ends_sorted: "list_all (\<lambda>r. 1 \<le> count r) rs \<Longrightarrow> sorted_wrt (<) (run_ends acc rs)"
  by (induction rs arbitrary: acc) (auto dest: run_ends_gt)

lemma run_ends_last_nth:
  "rs \<noteq> [] \<Longrightarrow> run_ends acc rs ! (length rs - 1) = acc + sum_list (map count rs)"
  by (induction rs rule: rev_induct) (auto simp: run_ends_snoc nth_append)

lemma run_ends_update_last:
  "(run_ends acc rs @ [x])[length rs := y] = run_ends acc rs @ [y]"
  by (metis length_run_ends list_update_length)

lemma distinct_adj_snoc:
  "distinct_adj (xs @ [x]) \<longleftrightarrow> distinct_adj xs \<and> (xs = [] \<or> last xs \<noteq> x)"
  by (induction xs rule: induct_list012) auto

lemma expand_snoc: "expand (rs @ [r]) = expand rs @ replicate (nat (count r)) (ts r)"
  by (induction rs) auto

lemma rle_AppendRow_new:
  assumes "rle_inv rows s" and "TSRuns s = [] \<or> ts (last (TSRuns s)) \<noteq> rle_TS row"
  shows "\<exists>s'. rle_AppendRow s row = Inr s' \<and> rle_inv (rows @ [row]) s'
     \<and> TSRuns s' = TSRuns s @ [\<lparr>ts = rle_TS row, count = 1\<rparr>]"
proof (cases "TSRuns s = []")
  case True
  with assms show ?thesis
    by (simp add: rle_inv_def rle_AppendRow_def)
next
  case False
  then have "TSRuns s ! (length (TSRuns s) - 1) = last (TSRuns s)"
    by (simp add: last_conv_nth)
  moreover have "run_ends 0 (TSRuns s) ! (length (TSRuns s) - 1) = sum_list (map count (TSRuns s))"
    using False run_ends_last_nth [of "TSRuns s" 0] by simp
  ultimately show ?thesis
    using assms False
    by (simp add: rle_inv_def rle_AppendRow_def Let_def run_ends_snoc distinct_adj_snoc last_map
        expand_snoc)
qed

lemma rle_AppendRow_merge:
  assumes "rle_inv rows s" and "TSRuns s = rs @ [r]" and "ts r = rle_TS row"
  shows "\<exists>s'. rle_AppendRow s row = Inr s' \<and> rle_inv (rows @ [row]) s'
     \<and> TSRuns s' = rs @ [r\<lparr>count := count r + 1\<rparr>]"
proof -
  have ends: "tsRunEnds s = run_ends 0 rs @ [sum_list (map count rs) + count r]"
    using assms by (simp add: rle_inv_def run_ends_snoc)
  have "rows \<noteq> []" using assms by (auto simp: rle_inv_def split: if_splits)
  have old_keys: "expand (rs @ [r]) = map rle_TS rows"
    using assms by (simp add: rle_inv_def)
  have "1 \<le> count r" using assms by (simp add: rle_inv_def)
  then have "nat (count r + 1) = Suc (nat (count r))" by simp
  then have "expand (rs @ [r\<lparr>count := count r + 1\<rparr>]) = expand (rs @ [r]) @ [ts r]"
    by (simp add: expand_snoc replicate_append_same)
  then have keys: "expand (rs @ [r\<lparr>count := count r + 1\<rparr>]) = map rle_TS (rows @ [row])"
    using assms(3) old_keys by simp
  show ?thesis
    using assms ends \<open>rows \<noteq> []\<close> keys
    by (auto simp: rle_inv_def rle_AppendRow_def Let_def run_ends_snoc distinct_adj_snoc
        nth_append last_map run_ends_update_last)
qed

lemma rle_AppendRow_inv:
  assumes "rle_inv rows s"
  shows "\<exists>s'. rle_AppendRow s row = Inr s' \<and> rle_inv (rows @ [row]) s'"
proof (cases "TSRuns s = [] \<or> ts (last (TSRuns s)) \<noteq> rle_TS row")
  case True
  with assms rle_AppendRow_new show ?thesis by blast
next
  case False
  then have "TSRuns s = butlast (TSRuns s) @ [last (TSRuns s)]" "ts (last (TSRuns s)) = rle_TS row"
    by simp_all
  with assms rle_AppendRow_merge show ?thesis by blast
qed

lemma rle_AppendRows_append:
  "rle_AppendRows s (xs @ ys) =
     (case rle_AppendRows s xs of Inl e \<Rightarrow> Inl e | Inr s' \<Rightarrow> rle_AppendRows s' ys)"
  by (induction xs arbitrary: s) (auto split: sum.splits)

lemma rle_inv_Init: "rle_inv [] InitRLE"
  by (simp add: rle_inv_def InitRLE_def)

lemma rle_AppendRows_inv: "\<exists>s. rle_AppendRows InitRLE rows = Inr s \<and> rle_inv rows s"
proof (induction rows rule: rev_induct)
  case Nil
  then show ?case by (simp add: rle_inv_Init)
next
  case (snoc row rows)
  then obtain s where s: "rle_AppendRows InitRLE rows = Inr s" "rle_inv rows s" by blast
  from rle_AppendRow_inv [OF s(2), of row] obtain s' where
    "rle_AppendRow s row = Inr s'" "rle_inv (rows @ [row]) s'" by blast
  with s show ?case by (simp add: rle_AppendRows_append)
qed

section \<open>The RLE encoder: row id to key\<close>

lemma GetTSFromRowID_loop_first:
  "i < length rs \<Longrightarrow> rowID \<le> run_ends acc rs ! i \<Longrightarrow> (\<forall>j<i. run_ends acc rs ! j < rowID)
     \<Longrightarrow> GetTSFromRowID_loop rs (rowID - acc) = ts (rs ! i)"
proof (induction rs arbitrary: acc i)
  case Nil
  then show ?case by simp
next
  case (Cons r rs)
  show ?case
  proof (cases i)
    case 0
    with Cons.prems show ?thesis by simp
  next
    case (Suc i')
    from Cons.prems Suc have "acc + count r < rowID" by auto
    moreover have "GetTSFromRowID_loop rs (rowID - (acc + count r)) = ts (rs ! i')"
    proof (rule Cons.IH)
      show "i' < length rs" using Cons.prems Suc by simp
      show "rowID \<le> run_ends (acc + count r) rs ! i'" using Cons.prems Suc by simp
      show "\<forall>j<i'. run_ends (acc + count r) rs ! j < rowID"
      proof (intro allI impI)
        fix j assume "j < i'"
        then have "Suc j < i" using Suc by simp
        with Cons.prems(3) have "run_ends acc (r # rs) ! Suc j < rowID" by blast
        then show "run_ends (acc + count r) rs ! j < rowID" by simp
      qed
    qed
    ultimately show ?thesis using Suc by (simp add: algebra_simps)
  qed
qed

lemma GetTSFromRowID_loop_expand:
  assumes "list_all (\<lambda>r. 1 \<le> count r) rs" and "1 \<le> rowID"
    and "rowID \<le> int (length (expand rs))"
  shows "GetTSFromRowID_loop rs rowID = expand rs ! nat (rowID - 1)"
  using assms
proof (induction rs arbitrary: rowID)
  case Nil
  then show ?case by simp
next
  case (Cons r rs)
  have c: "1 \<le> count r" using Cons.prems(1) by simp
  show ?case
  proof (cases "rowID \<le> count r")
    case True
    then have "nat (rowID - 1) < nat (count r)" using Cons.prems(2) by simp
    then show ?thesis using True by (simp add: nth_append)
  next
    case False
    then have ge: "\<not> nat (rowID - 1) < nat (count r)" using c by simp
    have "GetTSFromRowID_loop rs (rowID - count r) = expand rs ! nat (rowID - count r - 1)"
      using Cons.prems False c by (intro Cons.IH) auto
    moreover have "nat (rowID - 1) - nat (count r) = nat (rowID - count r - 1)"
      using False c by simp
    ultimately show ?thesis using False ge by (simp add: nth_append)
  qed
qed

lemma GetTSFromRowIDFaster_loop_first:
  assumes "sorted ends" and "0 \<le> low" and "high < int (length ends)" and "low \<le> high + 1"
    and "\<forall>j. j < nat low \<longrightarrow> ends ! j < rowID"
    and "\<forall>j. nat (high + 1) \<le> j \<and> j < length ends \<longrightarrow> rowID \<le> ends ! j"
  shows "\<exists>i. GetTSFromRowIDFaster_loop ends rowID low high = Inr (int i) \<and> i \<le> length ends
     \<and> (\<forall>j<i. ends ! j < rowID) \<and> (\<forall>j. i \<le> j \<and> j < length ends \<longrightarrow> rowID \<le> ends ! j)"
  using assms
proof (induction ends rowID low high rule: GetTSFromRowIDFaster_loop.induct)
  case (1 ends rowID low high)
  show ?case
  proof (cases "low \<le> high")
    case False
    with "1.prems" have eq: "high + 1 = low" by simp
    have "GetTSFromRowIDFaster_loop ends rowID low high = Inr (int (nat low))"
      using False "1.prems"(2) by (simp add: GetTSFromRowIDFaster_loop.simps)
    moreover have "nat low \<le> length ends" using "1.prems" eq by linarith
    ultimately show ?thesis using "1.prems"(5,6) eq by blast
  next
    case True
    define mid where "mid = (low + high) sdiv 2"
    have mid: "low \<le> mid" "mid \<le> high"
      using mid_bounds [OF "1.prems"(2) True] by (simp_all add: mid_def)
    have idx: "index ends mid = Inr (ends ! nat mid)"
      using mid "1.prems" by (intro index_in_range) linarith+
    show ?thesis
    proof (cases "rowID \<le> ends ! nat mid")
      case ge: True
      have step: "GetTSFromRowIDFaster_loop ends rowID low high
                  = GetTSFromRowIDFaster_loop ends rowID low (mid - 1)"
        using True idx ge
        by (subst GetTSFromRowIDFaster_loop.simps) (simp add: mid_def [symmetric])
      have upper: "\<forall>j. nat (mid - 1 + 1) \<le> j \<and> j < length ends \<longrightarrow> rowID \<le> ends ! j"
      proof (intro allI impI)
        fix j assume j: "nat (mid - 1 + 1) \<le> j \<and> j < length ends"
        then have "ends ! nat mid \<le> ends ! j"
          using "1.prems"(1) by (intro sorted_nth_mono) simp_all
        with ge show "rowID \<le> ends ! j" by simp
      qed
      have "\<exists>i. GetTSFromRowIDFaster_loop ends rowID low (mid - 1) = Inr (int i) \<and> i \<le> length ends
        \<and> (\<forall>j<i. ends ! j < rowID) \<and> (\<forall>j. i \<le> j \<and> j < length ends \<longrightarrow> rowID \<le> ends ! j)"
      proof (rule "1.IH"(1) [OF True mid_def idx ge])
        show "sorted ends" by (rule "1.prems"(1))
        show "0 \<le> low" by (rule "1.prems"(2))
        show "mid - 1 < int (length ends)" using mid "1.prems"(3) by simp
        show "low \<le> mid - 1 + 1" using mid by simp
        show "\<forall>j. j < nat low \<longrightarrow> ends ! j < rowID" by (rule "1.prems"(5))
        show "\<forall>j. nat (mid - 1 + 1) \<le> j \<and> j < length ends \<longrightarrow> rowID \<le> ends ! j" by (rule upper)
      qed
      with step show ?thesis by simp
    next
      case lt: False
      have step: "GetTSFromRowIDFaster_loop ends rowID low high
                  = GetTSFromRowIDFaster_loop ends rowID (mid + 1) high"
        using True idx lt
        by (subst GetTSFromRowIDFaster_loop.simps) (simp add: mid_def [symmetric])
      have lower: "\<forall>j. j < nat (mid + 1) \<longrightarrow> ends ! j < rowID"
      proof (intro allI impI)
        fix j assume j: "j < nat (mid + 1)"
        have "nat mid < length ends" using mid "1.prems" by linarith
        moreover have "j \<le> nat mid" using j mid "1.prems"(2) by linarith
        ultimately have "ends ! j \<le> ends ! nat mid"
          using "1.prems"(1) by (intro sorted_nth_mono) simp_all
        with lt show "ends ! j < rowID" by simp
      qed
      have "\<exists>i. GetTSFromRowIDFaster_loop ends rowID (mid + 1) high = Inr (int i) \<and> i \<le> length ends
        \<and> (\<forall>j<i. ends ! j < rowID) \<and> (\<forall>j. i \<le> j \<and> j < length ends \<longrightarrow> rowID \<le> ends ! j)"
      proof (rule "1.IH"(2) [OF True mid_def idx lt])
        show "sorted ends" by (rule "1.prems"(1))
        show "0 \<le> mid + 1" using mid "1.prems"(2) by simp
        show "high < int (length ends)" by (rule "1.prems"(3))
        show "mid + 1 \<le> high + 1" using mid by simp
        show "\<forall>j. j < nat (mid + 1) \<longrightarrow> ends ! j < rowID" by (rule lower)
        show "\<forall>j. nat (high + 1) \<le> j \<and> j < length ends \<longrightarrow> rowID \<le> ends ! j"
          by (rule "1.prems"(6))
      qed
      with step show ?thesis by simp
    qed
  qed
qed

lemma rle_lookup_both:
  assumes inv: "rle_inv rows s" and lo: "1 \<le> rowID" and hi: "rowID \<le> int (length rows)"
  shows "\<exists>i<length (TSRuns s). GetTSFromRowIDFaster s rowID = Inr (ts (TSRuns s ! i))
           \<and> GetTSFromRowID s rowID = Inr (ts (TSRuns s ! i))
           \<and> ts (TSRuns s ! i) = rle_TS (rows ! nat (rowID - 1))"
proof -
  let ?rs = "TSRuns s" and ?ends = "tsRunEnds s"
  have ends: "?ends = run_ends 0 ?rs" and pos: "list_all (\<lambda>r. 1 \<le> count r) ?rs"
    and total: "sum_list (map count ?rs) = int (length rows)"
    and ids: "length (rle_idList s) = length rows"
    using inv by (simp_all add: rle_inv_def)
  have "rows \<noteq> []" using lo hi by auto
  then have ne: "?rs \<noteq> []" using inv by (simp add: rle_inv_def)
  have len: "length ?ends = length ?rs" by (simp add: ends)
  have lastEnd: "?ends ! (length ?rs - 1) = int (length rows)"
    using run_ends_last_nth [OF ne, of 0] total by (simp add: ends)
  have srt: "sorted ?ends"
    using run_ends_sorted [OF pos, of 0] by (simp add: ends strict_sorted_imp_sorted)
  have idx_last: "index ?ends (int (length ?ends) - 1) = Inr (int (length rows))"
  proof -
    have "nat (int (length ?rs) - 1) = length ?rs - 1" by simp
    then show ?thesis using ne lastEnd by (simp add: index_def len)
  qed
  obtain i where loop: "GetTSFromRowIDFaster_loop ?ends rowID 0 (int (length ?ends) - 1) = Inr (int i)"
    and i_le: "i \<le> length ?ends" and below: "\<forall>j<i. ?ends ! j < rowID"
    and above: "\<forall>j. i \<le> j \<and> j < length ?ends \<longrightarrow> rowID \<le> ?ends ! j"
    using GetTSFromRowIDFaster_loop_first [OF srt, of 0 "int (length ?ends) - 1" rowID]
    by auto
  have i_lt: "i < length ?rs"
  proof (rule ccontr)
    assume "\<not> i < length ?rs"
    then have "length ?rs - 1 < i" using ne i_le len by (cases ?rs) auto
    with below have "?ends ! (length ?rs - 1) < rowID" by blast
    with lastEnd hi show False by simp
  qed
  then have at_i: "rowID \<le> run_ends 0 ?rs ! i" using above len by (simp add: ends)
  have "GetTSFromRowID_loop ?rs (rowID - 0) = ts (?rs ! i)"
    using i_lt at_i below by (intro GetTSFromRowID_loop_first) (simp_all add: ends)
  then have lin: "GetTSFromRowID s rowID = Inr (ts (?rs ! i))"
    using lo hi ids by (simp add: GetTSFromRowID_def)
  have "index ?rs (int i) = Inr (?rs ! i)" using i_lt by (simp add: index_def)
  then have fast: "GetTSFromRowIDFaster s rowID = Inr (ts (?rs ! i))"
    using lo hi idx_last loop by (simp add: GetTSFromRowIDFaster_def)
  have "expand ?rs = map rle_TS rows" using inv by (simp add: rle_inv_def)
  then have "GetTSFromRowID_loop ?rs rowID = rle_TS (rows ! nat (rowID - 1))"
    using GetTSFromRowID_loop_expand [OF pos lo, of ] hi lo by simp
  with lin lo hi ids have "ts (?rs ! i) = rle_TS (rows ! nat (rowID - 1))"
    by (simp add: GetTSFromRowID_def)
  with lin fast i_lt show ?thesis by blast
qed


lemma GetCountofTS_loop_absent:
  "k \<notin> ts ` set rs \<Longrightarrow> GetCountofTS_loop rs k = Inl (KeyNotFound k)"
  by (induction rs) auto

lemma GetCountofTS_loop_present:
  "i < length rs \<Longrightarrow> ts (rs ! i) = k \<Longrightarrow> (\<forall>j<i. ts (rs ! j) \<noteq> k)
     \<Longrightarrow> GetCountofTS_loop rs k = Inr (count (rs ! i))"
proof (induction rs arbitrary: i)
  case Nil
  then show ?case by simp
next
  case (Cons r rs)
  show ?case
  proof (cases i)
    case 0
    with Cons.prems show ?thesis by simp
  next
    case (Suc i')
    with Cons.prems have "ts r \<noteq> k" by auto
    moreover have "GetCountofTS_loop rs k = Inr (count (rs ! i'))"
      using Cons.prems Suc by (intro Cons.IH) auto
    ultimately show ?thesis using Suc by simp
  qed
qed

lemma GetCountofTSFaster_loop_absent:
  assumes "k \<notin> ts ` set runs" and "0 \<le> low" and "high < int (length runs)"
  shows "GetCountofTSFaster_loop runs k low high = Inl (KeyNotFound k)"
  using assms
proof (induction runs k low high rule: GetCountofTSFaster_loop.induct)
  case (1 runs k low high)
  show ?case
  proof (cases "low \<le> high")
    case False
    then show ?thesis by (simp add: GetCountofTSFaster_loop.simps)
  next
    case True
    define mid where "mid = (low + high) sdiv 2"
    have mid: "low \<le> mid" "mid \<le> high"
      using mid_bounds [OF "1.prems"(2) True] by (simp_all add: mid_def)
    have in_range: "nat mid < length runs" using mid "1.prems" by linarith
    have idx: "index runs mid = Inr (runs ! nat mid)"
      using mid "1.prems" by (intro index_in_range) linarith+
    have neq: "ts (runs ! nat mid) \<noteq> k"
      using "1.prems"(1) in_range by (metis image_eqI nth_mem)
    show ?thesis
    proof (cases "ts (runs ! nat mid) < k")
      case lt: True
      have "GetCountofTSFaster_loop runs k (mid + 1) high = Inl (KeyNotFound k)"
        using "1.IH"(1) [OF True mid_def idx neq lt] "1.prems" mid by simp
      then show ?thesis
        using True idx neq lt
        by (subst GetCountofTSFaster_loop.simps) (simp add: mid_def [symmetric])
    next
      case ge: False
      have "GetCountofTSFaster_loop runs k low (mid - 1) = Inl (KeyNotFound k)"
        using "1.IH"(2) [OF True mid_def idx neq ge] "1.prems" mid by simp
      then show ?thesis
        using True idx neq ge
        by (subst GetCountofTSFaster_loop.simps) (simp add: mid_def [symmetric])
    qed
  qed
qed

lemma GetCountofTSFaster_loop_present:
  assumes "sorted_wrt (<) (map ts runs)" and "i < length runs" and "ts (runs ! i) = k"
    and "0 \<le> low" and "low \<le> int i" and "int i \<le> high" and "high < int (length runs)"
  shows "GetCountofTSFaster_loop runs k low high = Inr (count (runs ! i))"
  using assms
proof (induction runs k low high rule: GetCountofTSFaster_loop.induct)
  case (1 runs k low high)
  have True: "low \<le> high" using "1.prems" by simp
  define mid where "mid = (low + high) sdiv 2"
  have mid: "low \<le> mid" "mid \<le> high"
    using mid_bounds [OF "1.prems"(4) True] by (simp_all add: mid_def)
  have in_range: "nat mid < length runs" using mid "1.prems" by linarith
  have idx: "index runs mid = Inr (runs ! nat mid)"
    using mid "1.prems" by (intro index_in_range) linarith+
  have mono: "a < b \<Longrightarrow> b < length runs \<Longrightarrow> ts (runs ! a) < ts (runs ! b)" for a b
    using sorted_wrt_nth_less [OF "1.prems"(1), of a b] by simp
  show ?case
  proof (cases "ts (runs ! nat mid) = k")
    case eq: True
    have "nat mid = i"
    proof (rule ccontr)
      assume "nat mid \<noteq> i"
      then consider "nat mid < i" | "i < nat mid" by linarith
      then show False
        using mono [of "nat mid" i] mono [of i "nat mid"] in_range "1.prems"(2,3) eq by cases auto
    qed
    then show ?thesis
      using True idx eq
      by (subst GetCountofTSFaster_loop.simps) (simp add: mid_def [symmetric])
  next
    case neq: False
    show ?thesis
    proof (cases "ts (runs ! nat mid) < k")
      case lt: True
      have "nat mid < i"
      proof (rule ccontr)
        assume "\<not> nat mid < i"
        then have "i < nat mid" using neq "1.prems"(3) by (cases "i = nat mid") auto
        from mono [OF this in_range] lt "1.prems"(3) show False by simp
      qed
      then have "GetCountofTSFaster_loop runs k (mid + 1) high = Inr (count (runs ! i))"
        using "1.IH"(1) [OF True mid_def idx neq lt] "1.prems" mid by simp
      then show ?thesis
        using True idx neq lt
        by (subst GetCountofTSFaster_loop.simps) (simp add: mid_def [symmetric])
    next
      case ge: False
      have "i < nat mid"
      proof (rule ccontr)
        assume "\<not> i < nat mid"
        then have "nat mid < i" using neq "1.prems"(3) by (cases "i = nat mid") auto
        from mono [OF this "1.prems"(2)] ge "1.prems"(3) show False by simp
      qed
      then have "GetCountofTSFaster_loop runs k low (mid - 1) = Inr (count (runs ! i))"
        using "1.IH"(2) [OF True mid_def idx neq ge] "1.prems" mid by simp
      then show ?thesis
        using True idx neq ge
        by (subst GetCountofTSFaster_loop.simps) (simp add: mid_def [symmetric])
    qed
  qed
qed

lemma sorted_distinct_adj_strict:
  fixes xs :: "'a::linorder list"
  shows "sorted xs \<Longrightarrow> distinct_adj xs \<Longrightarrow> sorted_wrt (<) xs"
proof (induction xs rule: induct_list012)
  case (3 x y zs)
  then have "x < y" and tl: "sorted_wrt (<) (y # zs)" by auto
  moreover have "\<forall>z\<in>set zs. y < z" using tl by simp
  ultimately show ?case by auto
qed simp_all

lemma count_by_key_strict:
  assumes "sorted_wrt (<) (map ts runs)"
  shows "GetCountofTSFaster_loop runs k 0 (int (length runs) - 1) = GetCountofTS_loop runs k
     \<and> (if k \<in> ts ` set runs
        then \<exists>r\<in>set runs. ts r = k \<and> GetCountofTS_loop runs k = Inr (count r)
        else GetCountofTS_loop runs k = Inl (KeyNotFound k))"
proof (cases "k \<in> ts ` set runs")
  case False
  then show ?thesis
    by (simp add: GetCountofTS_loop_absent GetCountofTSFaster_loop_absent)
next
  case True
  then obtain i where i: "i < length runs" "ts (runs ! i) = k"
    by (auto simp: in_set_conv_nth)
  have first: "\<forall>j<i. ts (runs ! j) \<noteq> k"
  proof (intro allI impI)
    fix j assume "j < i"
    with sorted_wrt_nth_less [OF assms, of j i] i have "ts (runs ! j) < k" by simp
    then show "ts (runs ! j) \<noteq> k" by simp
  qed
  have lin: "GetCountofTS_loop runs k = Inr (count (runs ! i))"
    using i first by (rule GetCountofTS_loop_present)
  moreover have "GetCountofTSFaster_loop runs k 0 (int (length runs) - 1) = Inr (count (runs ! i))"
    using assms i by (intro GetCountofTSFaster_loop_present) auto
  moreover have "\<exists>r\<in>set runs. ts r = k \<and> GetCountofTS_loop runs k = Inr (count r)"
    using i lin nth_mem [OF i(1)] by blast
  ultimately show ?thesis using True by simp
qed

section \<open>The delta encoder: reachable states\<close>

lemma deltas_of_snoc:
  assumes "deltas_of vs ds" and "vs \<noteq> [] \<Longrightarrow> lst = last vs"
  shows "deltas_of (vs @ [v]) (ds @ [if vs = [] then 0 else v - lst])"
proof -
  have len: "length ds = length vs"
    and nth: "\<And>i. i < length vs \<Longrightarrow> ds ! i = (if i = 0 then 0 else vs ! i - vs ! (i - 1))"
    using assms(1) by (simp_all add: deltas_of_def)
  have "(ds @ [if vs = [] then 0 else v - lst]) ! i
        = (if i = 0 then 0 else (vs @ [v]) ! i - (vs @ [v]) ! (i - 1))"
    if "i < length (vs @ [v])" for i
  proof (cases "i < length vs")
    case True
    then have "i - 1 < length vs" by simp
    then show ?thesis using nth [OF True] True len by (simp add: nth_append)
  next
    case False
    with that have i: "i = length vs" by simp
    show ?thesis
    proof (cases "vs = []")
      case True
      then show ?thesis using i len by simp
    next
      case False
      then have "vs ! (length vs - 1) = lst" using assms(2) by (simp add: last_conv_nth)
      then show ?thesis using False i len by (simp add: nth_append)
    qed
  qed
  then show ?thesis using len by (simp add: deltas_of_def)
qed

lemma checkpoints_of_snoc:
  assumes "checkpoints_of c vs cps" and "0 < c"
  shows "checkpoints_of c (vs @ [v])
           ((if vs = [] then cps @ [v] else cps) @ (if Suc (length vs) mod c = 0 then [v] else []))"
proof (cases "vs = []")
  case True
  with assms have "cps = []" by (simp add: checkpoints_of_def)
  show ?thesis
  proof (cases "c = 1")
    case True
    then show ?thesis using \<open>vs = []\<close> \<open>cps = []\<close>
      by (auto simp: checkpoints_of_def less_Suc_eq)
  next
    case False
    with assms(2) have "1 < c" by simp
    then show ?thesis using \<open>vs = []\<close> \<open>cps = []\<close>
      by (auto simp: checkpoints_of_def)
  qed
next
  case False
  let ?n = "length vs"
  have len: "length cps = 1 + ?n div c"
    and nth: "\<And>g. g < length cps \<Longrightarrow> cps ! g = (if g = 0 then vs ! 0 else vs ! (g * c - 1))"
    using assms(1) False by (simp_all add: checkpoints_of_def)
  have old: "cps ! g = (if g = 0 then (vs @ [v]) ! 0 else (vs @ [v]) ! (g * c - 1))"
    if "g < length cps" for g
  proof -
    have "g * c \<le> ?n div c * c" using that len by simp
    also have "\<dots> \<le> ?n" by simp
    finally have "g * c - 1 < ?n" using False by (cases vs) auto
    then show ?thesis using nth [OF that] False by (simp add: nth_append)
  qed
  show ?thesis
  proof (cases "Suc ?n mod c = 0")
    case True
    then have d: "Suc ?n div c = Suc (?n div c)" by (simp add: div_Suc)
    have "Suc (?n div c) * c = Suc ?n" using True d by (metis mod_0_imp_dvd dvd_div_mult_self)
    then have new: "(vs @ [v]) ! (length cps * c - 1) = v" by (simp add: len)
    have "(cps @ [v]) ! g = (if g = 0 then (vs @ [v]) ! 0 else (vs @ [v]) ! (g * c - 1))"
      if "g < length (cps @ [v])" for g
    proof (cases "g < length cps")
      case True
      then show ?thesis using old by (simp add: nth_append)
    next
      case False
      with that have "g = length cps" by simp
      then show ?thesis using new len by (simp add: nth_append)
    qed
    then show ?thesis using True False d len by (simp add: checkpoints_of_def)
  next
    case nz: False
    then have "Suc ?n div c = ?n div c" by (simp add: div_Suc)
    then show ?thesis using nz False len old by (simp add: checkpoints_of_def)
  qed
qed

lemma de_AppendRow_inv:
  assumes "de_inv c rows de"
  shows "\<exists>de'. de_AppendRow de row = Inr de' \<and> de_inv c (rows @ [row]) de'"
proof -
  define cp where "cp \<longleftrightarrow> Suc (length rows) mod c = 0"
  have c: "0 < c" "checkpointInterval de = int c" and ids: "de_idList de = map de_ID rows"
    using assms by (simp_all add: de_inv_def)
  have "int (Suc (length rows)) smod int c = int (Suc (length rows) mod c)"
    using c(1) by (simp add: smod_nonneg flip: of_nat_mod del: of_nat_Suc)
  then have test: "int (Suc (length rows)) smod int c = 0 \<longleftrightarrow> cp"
    by (simp add: cp_def del: of_nat_Suc)
  have dv: "deltas_of (map de_Value (rows @ [row]))
      (deltaValueList de @ [if rows = [] then 0 else de_Value row - lastValue de])"
    using deltas_of_snoc [of "map de_Value rows" "deltaValueList de" "lastValue de" "de_Value row"]
      assms by (simp add: de_inv_def last_map)
  have dt: "deltas_of (map de_TS (rows @ [row]))
      (deltaTsList de @ [if rows = [] then 0 else de_TS row - lastTs de])"
    using deltas_of_snoc [of "map de_TS rows" "deltaTsList de" "lastTs de" "de_TS row"]
      assms by (simp add: de_inv_def last_map)
  have cv: "checkpoints_of c (map de_Value (rows @ [row]))
      ((if rows = [] then checkpointValues de @ [de_Value row] else checkpointValues de)
        @ (if cp then [de_Value row] else []))"
    using checkpoints_of_snoc [of c "map de_Value rows" "checkpointValues de" "de_Value row"]
      assms by (simp add: de_inv_def cp_def)
  have ct: "checkpoints_of c (map de_TS (rows @ [row]))
      ((if rows = [] then checkpointTs de @ [de_TS row] else checkpointTs de)
        @ (if cp then [de_TS row] else []))"
    using checkpoints_of_snoc [of c "map de_TS rows" "checkpointTs de" "de_TS row"]
      assms by (simp add: de_inv_def cp_def)
  have rest: "originalRows de = rows" using assms by (simp add: de_inv_def)
  show ?thesis
    using c ids test dv dt cv ct rest
    by (cases "rows = []"; cases cp)
       (simp_all add: de_AppendRow_def de_inv_def Let_def del: of_nat_Suc)
qed

lemma de_AppendRows_append:
  "de_AppendRows de (xs @ ys) =
     (case de_AppendRows de xs of Inl e \<Rightarrow> Inl e | Inr de' \<Rightarrow> de_AppendRows de' ys)"
  by (induction xs arbitrary: de) (auto split: sum.splits)

lemma de_inv_Init: "de_inv 4 [] InitDE"
  by (simp add: de_inv_def InitDE_def deltas_of_def checkpoints_of_def)

lemma de_AppendRows_inv_from:
  assumes "de_inv c [] de0"
  shows "\<exists>de. de_AppendRows de0 rows = Inr de \<and> de_inv c rows de"
proof (induction rows rule: rev_induct)
  case Nil
  then show ?case using assms by simp
next
  case (snoc row rows)
  then obtain de where de: "de_AppendRows de0 rows = Inr de" "de_inv c rows de" by blast
  from de_AppendRow_inv [OF de(2), of row] obtain de' where
    "de_AppendRow de row = Inr de'" "de_inv c (rows @ [row]) de'" by blast
  with de show ?case by (simp add: de_AppendRows_append)
qed

lemma de_AppendRows_inv: "\<exists>de. de_AppendRows InitDE rows = Inr de \<and> de_inv 4 rows de"
  by (rule de_AppendRows_inv_from [OF de_inv_Init])

section \<open>The delta encoder: reconstruction\<close>

lemma de_ReconstructRow_loop_telescope:
  assumes "deltas_of vs dvs" and "deltas_of tss dts" and "length tss = length vs"
    and "k < length vs" and "ind \<le> k + 1"
  shows "de_ReconstructRow_loop dvs dts (int k) (int ind) (vs ! (ind - 1)) (tss ! (ind - 1))
         = Inr (vs ! k, tss ! k)"
  using assms(5)
proof (induction "k + 1 - ind" arbitrary: ind)
  case 0
  then have "ind = k + 1" by simp
  then show ?case by (simp add: de_ReconstructRow_loop.simps)
next
  case (Suc d)
  then have ind: "ind \<le> k" by simp
  then have lt: "ind < length vs" using assms(4) by simp
  have dv: "index dvs (int ind) = Inr (if ind = 0 then 0 else vs ! ind - vs ! (ind - 1))"
    using assms(1) lt by (simp add: deltas_of_def index_def)
  have dt: "index dts (int ind) = Inr (if ind = 0 then 0 else tss ! ind - tss ! (ind - 1))"
    using assms(2,3) lt by (simp add: deltas_of_def index_def)
  have "de_ReconstructRow_loop dvs dts (int k) (int (ind + 1)) (vs ! (ind + 1 - 1)) (tss ! (ind + 1 - 1))
        = Inr (vs ! k, tss ! k)"
    using Suc.hyps(2) ind by (intro Suc.hyps(1)) simp_all
  then show ?case
    using ind dv dt
    by (subst de_ReconstructRow_loop.simps) (auto simp: add.commute)
qed

lemma de_ReconstructRow_inv:
  assumes inv: "de_inv c rows de" and lo: "1 \<le> i" and hi: "i \<le> int (length rows)"
  shows "de_ReconstructRow de i
         = Inr \<lparr>de_ID = i, de_Value = de_Value (rows ! nat (i - 1)), de_TS = de_TS (rows ! nat (i - 1))\<rparr>"
proof -
  define k where "k = nat (i - 1)"
  define g where "g = k div c"
  have i: "i = int k + 1" and k: "k < length rows" using lo hi by (simp_all add: k_def)
  have c: "0 < c" "checkpointInterval de = int c" and ids: "length (de_idList de) = length rows"
    and dv: "deltas_of (map de_Value rows) (deltaValueList de)"
    and dt: "deltas_of (map de_TS rows) (deltaTsList de)"
    and cv: "checkpoints_of c (map de_Value rows) (checkpointValues de)"
    and ct: "checkpoints_of c (map de_TS rows) (checkpointTs de)"
    using inv by (simp_all add: de_inv_def)
  have ne: "rows \<noteq> []" using k by auto
  have cidx: "(i - 1) sdiv checkpointInterval de = int g"
    using c by (simp add: i g_def sdiv_nonneg zdiv_int)
  have "g \<le> length rows div c" using k by (simp add: g_def div_le_mono)
  then have g_lt: "g < length (checkpointValues de)" "g < length (checkpointTs de)"
    using cv ct ne by (simp_all add: checkpoints_of_def)
  have gc: "g * c \<le> k" by (simp add: g_def)
  then have gc1: "g * c - 1 < length rows" using k by simp
  have cpv: "index (checkpointValues de) (int g) = Inr (map de_Value rows ! (g * c - 1))"
    using cv g_lt(1) by (auto simp: checkpoints_of_def index_def)
  have cpt: "index (checkpointTs de) (int g) = Inr (map de_TS rows ! (g * c - 1))"
    using ct g_lt(2) by (auto simp: checkpoints_of_def index_def)
  have loop: "de_ReconstructRow_loop (deltaValueList de) (deltaTsList de) (int k) (int (g * c))
      (map de_Value rows ! (g * c - 1)) (map de_TS rows ! (g * c - 1))
      = Inr (map de_Value rows ! k, map de_TS rows ! k)"
    using dv dt k gc by (intro de_ReconstructRow_loop_telescope) simp_all
  have "de_ReconstructRow de (int k + 1)
        = Inr \<lparr>de_ID = int k + 1, de_Value = de_Value (rows ! k), de_TS = de_TS (rows ! k)\<rparr>"
    using c k ids cidx cpv cpt loop
    by (simp add: de_ReconstructRow_def i Let_def)
  then show ?thesis by (simp add: i)
qed

section \<open>The test scenarios\<close>

lemma de_test_state:
  "de_AppendRows InitDE de_test_rows =
     Inr \<lparr>de_idList = [1, 2, 3, 4, 5, 6, 7, 8, 9, 10],
          deltaValueList = [0, 10, 10, 0, - 10, 30, - 40, 5, - 5, 0],
          deltaTsList = [0, 2, 2, 2, 2, 2, 2, 2, 2, 2],
          originalRows = de_test_rows,
          lastValue = 10, lastTs = 1018, checkpointInterval = 4,
          checkpointValues = [10, 30, 15], checkpointTs = [1000, 1006, 1014]\<rparr>"
  by (simp add: de_test_rows_def InitDE_def de_AppendRow_def Let_def smod_nonneg)

lemma rle_test_state:
  "rle_AppendRows InitRLE rle_test_rows =
     Inr \<lparr>rle_idList = [1, 2, 3, 4, 5, 6], valueList = [100, 200, 300, 400, 500, 600],
          TSRuns = [\<lparr>ts = ''10:00:00'', count = 2\<rparr>, \<lparr>ts = ''10:00:02'', count = 3\<rparr>,
                    \<lparr>ts = ''10:00:03'', count = 1\<rparr>],
          tsRunEnds = [2, 5, 6]\<rparr>"
  by (simp add: rle_test_rows_def InitRLE_def rle_AppendRow_def Let_def)

section \<open>The RLE encoder: blocks of equal keys\<close>

lemma rle_AppendRows_merge_block:
  assumes "rle_inv rows0 s" and "TSRuns s = rs @ [r]" and "\<forall>row\<in>set blk. rle_TS row = ts r"
  shows "\<exists>s'. rle_AppendRows s blk = Inr s' \<and> rle_inv (rows0 @ blk) s'
           \<and> TSRuns s' = rs @ [r\<lparr>count := count r + int (length blk)\<rparr>]"
  using assms
proof (induction blk arbitrary: s rows0 r)
  case Nil
  then show ?case by simp
next
  case (Cons row blk)
  from Cons.prems(3) have key: "ts r = rle_TS row" by simp
  from rle_AppendRow_merge [OF Cons.prems(1,2) key] obtain s1 where
    s1: "rle_AppendRow s row = Inr s1" "rle_inv (rows0 @ [row]) s1"
        "TSRuns s1 = rs @ [r\<lparr>count := count r + 1\<rparr>]" by blast
  have "\<forall>row\<in>set blk. rle_TS row = ts (r\<lparr>count := count r + 1\<rparr>)"
    using Cons.prems(3) by simp
  from Cons.IH [OF s1(2,3) this] obtain s' where
    "rle_AppendRows s1 blk = Inr s'" "rle_inv ((rows0 @ [row]) @ blk) s'"
    "TSRuns s' = rs @ [r\<lparr>count := count r + 1\<rparr>\<lparr>count := count (r\<lparr>count := count r + 1\<rparr>) + int (length blk)\<rparr>]"
    by blast
  with s1(1) show ?case by (simp add: algebra_simps)
qed

lemma rle_AppendRows_new_block:
  assumes "rle_inv pre s0" and "blk \<noteq> []" and "\<forall>row\<in>set blk. rle_TS row = t"
    and "pre = [] \<or> rle_TS (last pre) \<noteq> t"
  shows "\<exists>s. rle_AppendRows s0 blk = Inr s \<and> rle_inv (pre @ blk) s
           \<and> TSRuns s = TSRuns s0 @ [\<lparr>ts = t, count = int (length blk)\<rparr>]"
proof -
  from assms(2) obtain row blk' where blk: "blk = row # blk'" by (cases blk) auto
  with assms(3) have row: "rle_TS row = t" by simp
  have "TSRuns s0 = [] \<or> ts (last (TSRuns s0)) \<noteq> rle_TS row"
    using assms(1,4) row by (auto simp: rle_inv_def split: if_splits)
  from rle_AppendRow_new [OF assms(1) this] obtain s1 where
    s1: "rle_AppendRow s0 row = Inr s1" "rle_inv (pre @ [row]) s1"
        "TSRuns s1 = TSRuns s0 @ [\<lparr>ts = rle_TS row, count = 1\<rparr>]" by blast
  have "\<forall>x\<in>set blk'. rle_TS x = ts \<lparr>ts = rle_TS row, count = 1\<rparr>"
    using assms(3) blk row by simp
  from rle_AppendRows_merge_block [OF s1(2,3) this] obtain s where
    "rle_AppendRows s1 blk' = Inr s" "rle_inv ((pre @ [row]) @ blk') s"
    "TSRuns s = TSRuns s0 @ [\<lparr>ts = rle_TS row, count = 1\<rparr>\<lparr>count := count \<lparr>ts = rle_TS row, count = 1\<rparr> + int (length blk')\<rparr>]"
    by blast
  with s1(1) blk row show ?thesis by (simp add: algebra_simps)
qed

section \<open>The delta encoder: ids, out-of-range rows and the whole table\<close>

lemma de_ReconstructRow_id: "de_ReconstructRow de i = Inr r \<Longrightarrow> de_ID r = i"
  by (auto simp: de_ReconstructRow_def Let_def split: if_splits sum.splits prod.splits)

lemma de_ReconstructRow_out_of_range:
  "i \<le> 0 \<or> int (length (de_idList de)) < i \<Longrightarrow> de_ReconstructRow de i = Inl (RowNotFound i)"
  by (auto simp: de_ReconstructRow_def)

lemma de_ReconstructRow_update:
  assumes "de_inv c rows de" and "1 \<le> i" and "i \<le> int (length rows)"
  shows "de_ReconstructRow de i = Inr ((rows ! nat (i - 1))\<lparr>de_ID := i\<rparr>)"
proof -
  have "\<lparr>de_ID = i, de_Value = de_Value (rows ! nat (i - 1)), de_TS = de_TS (rows ! nat (i - 1))\<rparr>
        = (rows ! nat (i - 1))\<lparr>de_ID := i\<rparr>"
    by (cases "rows ! nat (i - 1)") simp
  with de_ReconstructRow_inv [OF assms] show ?thesis by simp
qed

lemma ReconstructTable_loop_inv:
  assumes "de_inv c rows de"
  shows "ReconstructTable_loop de ids acc =
     (case find (\<lambda>x. x \<le> 0 \<or> int (length rows) < x) ids of
        Some x \<Rightarrow> Inl (RowNotFound x)
      | None \<Rightarrow> Inr (acc @ map (\<lambda>i. (rows ! nat (i - 1))\<lparr>de_ID := i\<rparr>) ids))"
proof (induction ids arbitrary: acc)
  case Nil
  then show ?case by simp
next
  case (Cons i ids)
  have len: "length (de_idList de) = length rows" using assms by (simp add: de_inv_def)
  show ?case
  proof (cases "i \<le> 0 \<or> int (length rows) < i")
    case True
    then have "de_ReconstructRow de i = Inl (RowNotFound i)"
      using de_ReconstructRow_out_of_range [of i de] len by simp
    with True show ?thesis by simp
  next
    case False
    then have "de_ReconstructRow de i = Inr ((rows ! nat (i - 1))\<lparr>de_ID := i\<rparr>)"
      using de_ReconstructRow_update [OF assms, of i] by simp
    with False Cons.IH show ?thesis by (simp split: option.splits)
  qed
qed

lemma Verify_InitDE: "VerifyDeltaEncodingCorrectness InitDE = Inr True"
  by (simp add: VerifyDeltaEncodingCorrectness_def ReconstructTable_def InitDE_def)

section \<open>The RLE encoder: out-of-range rows\<close>

lemma rle_ReconstructRow_out_of_range:
  "i \<le> 0 \<or> int (length (rle_idList rle)) < i \<Longrightarrow> rle_ReconstructRow rle i = Inl (RowNotFound i)"
  by (auto simp: rle_ReconstructRow_def)

lemma GetTSFromRowIDFaster_out_of_range:
  assumes "rle_inv rows s" and "rows \<noteq> []" and "rowID \<le> 0 \<or> int (length rows) < rowID"
  shows "GetTSFromRowIDFaster s rowID = Inr ''''"
proof -
  let ?rs = "TSRuns s" and ?ends = "tsRunEnds s"
  have ends: "?ends = run_ends 0 ?rs" and total: "sum_list (map count ?rs) = int (length rows)"
    and ne: "?rs \<noteq> []"
    using assms(1,2) by (simp_all add: rle_inv_def)
  have "nat (int (length ?rs) - 1) = length ?rs - 1" by simp
  then have "index ?ends (int (length ?ends) - 1) = Inr (int (length rows))"
    using ne run_ends_last_nth [OF ne, of 0] total by (simp add: index_def ends)
  then show ?thesis using assms(3) by (auto simp: GetTSFromRowIDFaster_def)
qed

section \<open>Claims\<close>

text \<open>
  C1. Round trip of the delta encoder. For every sequence of rows with the contiguous ids
  \<open>1, 2, \<dots>, n\<close> appended to a fresh encoder, every \<^verbatim>\<open>AppendRow\<close> succeeds and, for
  every \<open>i\<close> in \<open>[1, n]\<close>, \<^verbatim>\<open>ReconstructRow(i)\<close> returns the \<open>i\<close>-th appended row:
  its id, value and timestamp. \<open>n\<close> is arbitrary, so it need not be a multiple of the
  checkpoint interval; values and timestamps are 64-bit and wrap around.
\<close>

theorem delta_round_trip:
  assumes "\<forall>k<length rows. de_ID (rows ! k) = int k + 1"
    and "1 \<le> i" and "i \<le> int (length rows)"
  shows "\<exists>de. de_AppendRows InitDE rows = Inr de
           \<and> de_ReconstructRow de i = Inr (rows ! nat (i - 1))"
proof -
  obtain de where de: "de_AppendRows InitDE rows = Inr de" "de_inv 4 rows de"
    using de_AppendRows_inv by blast
  have "nat (i - 1) < length rows" using assms(2,3) by simp
  with assms(1) have "de_ID (rows ! nat (i - 1)) = i" using assms(2) by simp
  then have "\<lparr>de_ID = i, de_Value = de_Value (rows ! nat (i - 1)),
              de_TS = de_TS (rows ! nat (i - 1))\<rparr> = rows ! nat (i - 1)"
    by (cases "rows ! nat (i - 1)") simp
  with de_ReconstructRow_inv [OF de(2) assms(2,3)] de(1) show ?thesis by simp
qed

theorem delta_round_trip_witness:
  "map de_ID de_test_rows = [1, 2, 3, 4, 5, 6, 7, 8, 9, 10]
   \<and> (\<exists>de. de_AppendRows InitDE de_test_rows = Inr de
          \<and> de_ReconstructRow de 6 = Inr \<lparr>de_ID = 6, de_Value = 50, de_TS = 1010\<rparr>
          \<and> de_ReconstructRow de 10 = Inr \<lparr>de_ID = 10, de_Value = 10, de_TS = 1018\<rparr>)"
proof -
  have ids: "\<forall>k<length de_test_rows. de_ID (de_test_rows ! k) = int k + 1"
    by (simp add: de_test_rows_def All_less_Suc)
  have len: "int (length de_test_rows) = 10" by (simp add: de_test_rows_def)
  from delta_round_trip [OF ids, of 6] len have
    "\<exists>de. de_AppendRows InitDE de_test_rows = Inr de
       \<and> de_ReconstructRow de 6 = Inr (de_test_rows ! nat (6 - 1))" by simp
  moreover from delta_round_trip [OF ids, of 10] len have
    "\<exists>de. de_AppendRows InitDE de_test_rows = Inr de
       \<and> de_ReconstructRow de 10 = Inr (de_test_rows ! nat (10 - 1))" by simp
  moreover have "de_test_rows ! nat (6 - 1) = \<lparr>de_ID = 6, de_Value = 50, de_TS = 1010\<rparr>"
    "de_test_rows ! nat (10 - 1) = \<lparr>de_ID = 10, de_Value = 10, de_TS = 1018\<rparr>"
    by (simp_all add: de_test_rows_def)
  moreover have "map de_ID de_test_rows = [1, 2, 3, 4, 5, 6, 7, 8, 9, 10]"
    by (simp add: de_test_rows_def)
  ultimately show ?thesis by auto
qed

text \<open>
  C2. Position of the checkpoints. As stated (checkpoint \<open>g > 0\<close> holds the value of the
  row at 0-based index \<open>g * checkpointInterval\<close>) the claim fails: on the ten rows of the
  package test, checkpoint 1 is 30 at timestamp 1006, the row at index 3, while the row at
  index 4 has value 20 and timestamp 1008.
\<close>

theorem checkpoint_position_counterexample:
  "\<not> isl (de_AppendRows InitDE de_test_rows)
   \<and> checkpointValues (projr (de_AppendRows InitDE de_test_rows)) ! 1
       \<noteq> de_Value (de_test_rows ! (1 * 4))
   \<and> checkpointTs (projr (de_AppendRows InitDE de_test_rows)) ! 1
       \<noteq> de_TS (de_test_rows ! (1 * 4))"
  by (simp add: de_test_state) (simp add: de_test_rows_def)

text \<open>
  C2, amended. After any sequence of \<^verbatim>\<open>AppendRow\<close> calls on a fresh encoder (interval 4),
  checkpoint 0 holds the value and timestamp of the row at index 0, and every checkpoint
  \<open>g\<close> with \<open>0 < g \<le> n div 4\<close> holds those of the row at 0-based index \<open>g * 4 - 1\<close>,
  the row with id \<open>g * 4\<close> whose append made the row count a multiple of the interval.
\<close>

theorem checkpoint_position_amended:
  "\<exists>de. de_AppendRows InitDE rows = Inr de \<and> checkpointInterval de = 4
     \<and> (rows \<noteq> [] \<longrightarrow> checkpointValues de ! 0 = de_Value (rows ! 0)
                       \<and> checkpointTs de ! 0 = de_TS (rows ! 0))
     \<and> (\<forall>g. 0 < g \<and> g \<le> length rows div 4 \<longrightarrow>
            g < length (checkpointValues de) \<and> g < length (checkpointTs de)
            \<and> g * 4 - 1 < length rows
            \<and> checkpointValues de ! g = de_Value (rows ! (g * 4 - 1))
            \<and> checkpointTs de ! g = de_TS (rows ! (g * 4 - 1)))"
proof -
  obtain de where de: "de_AppendRows InitDE rows = Inr de" and inv: "de_inv 4 rows de"
    using de_AppendRows_inv by blast
  have cv: "checkpoints_of 4 (map de_Value rows) (checkpointValues de)"
    and ct: "checkpoints_of 4 (map de_TS rows) (checkpointTs de)"
    and c: "checkpointInterval de = 4"
    using inv by (simp_all add: de_inv_def)
  have first: "checkpointValues de ! 0 = de_Value (rows ! 0) \<and> checkpointTs de ! 0 = de_TS (rows ! 0)"
    if "rows \<noteq> []"
    using that cv ct by (simp add: checkpoints_of_def)
  have later: "g < length (checkpointValues de) \<and> g < length (checkpointTs de)
            \<and> g * 4 - 1 < length rows
            \<and> checkpointValues de ! g = de_Value (rows ! (g * 4 - 1))
            \<and> checkpointTs de ! g = de_TS (rows ! (g * 4 - 1))"
    if "0 < g \<and> g \<le> length rows div 4" for g
  proof -
    from that have ne: "rows \<noteq> []" by auto
    have "g * 4 \<le> length rows" using that by linarith
    then have r: "g * 4 - 1 < length rows" using that by linarith
    have "g < length (checkpointValues de)" "g < length (checkpointTs de)"
      using that ne cv ct by (simp_all add: checkpoints_of_def)
    then show ?thesis using that r cv ct by (simp add: checkpoints_of_def)
  qed
  from de c first later show ?thesis by blast
qed

theorem checkpoint_position_amended_witness:
  "\<exists>de. de_AppendRows InitDE de_test_rows = Inr de
     \<and> checkpointValues de ! 0 = 10 \<and> checkpointTs de ! 0 = 1000
     \<and> checkpointValues de ! 1 = 30 \<and> checkpointTs de ! 1 = 1006
     \<and> checkpointValues de ! 2 = 15 \<and> checkpointTs de ! 2 = 1014"
proof -
  from checkpoint_position_amended [of de_test_rows] obtain de where
    de: "de_AppendRows InitDE de_test_rows = Inr de"
    and first: "de_test_rows \<noteq> [] \<longrightarrow> checkpointValues de ! 0 = de_Value (de_test_rows ! 0)
                       \<and> checkpointTs de ! 0 = de_TS (de_test_rows ! 0)"
    and later: "\<And>g. 0 < g \<and> g \<le> length de_test_rows div 4 \<Longrightarrow>
            checkpointValues de ! g = de_Value (de_test_rows ! (g * 4 - 1))
            \<and> checkpointTs de ! g = de_TS (de_test_rows ! (g * 4 - 1))"
    by blast
  have "checkpointValues de ! 0 = 10 \<and> checkpointTs de ! 0 = 1000"
    using first by (simp add: de_test_rows_def)
  moreover have "checkpointValues de ! 1 = 30 \<and> checkpointTs de ! 1 = 1006"
    using later [of 1] by (simp add: de_test_rows_def)
  moreover have "checkpointValues de ! 2 = 15 \<and> checkpointTs de ! 2 = 1014"
    using later [of 2] by (simp add: de_test_rows_def)
  ultimately show ?thesis using de by blast
qed

text \<open>
  C3. Agreement of the two row-to-key strategies. For every sequence of rows appended to a
  fresh RLE encoder and every \<open>rowID\<close> in \<open>[1, n]\<close>, the linear \<^verbatim>\<open>GetTSFromRowID\<close> and the
  binary-search \<^verbatim>\<open>GetTSFromRowIDFaster\<close> both return, without a panic, the same key: the
  key of a run, and the key the row with that id was appended with.
\<close>

theorem rle_lookup_agreement:
  assumes "1 \<le> rowID" and "rowID \<le> int (length rows)"
  shows "\<exists>s k. rle_AppendRows InitRLE rows = Inr s
           \<and> GetTSFromRowID s rowID = Inr k \<and> GetTSFromRowIDFaster s rowID = Inr k
           \<and> k \<in> ts ` set (TSRuns s) \<and> k = rle_TS (rows ! nat (rowID - 1))"
proof -
  obtain s where s: "rle_AppendRows InitRLE rows = Inr s" and inv: "rle_inv rows s"
    using rle_AppendRows_inv by blast
  from rle_lookup_both [OF inv assms] obtain i where
    "i < length (TSRuns s)"
    "GetTSFromRowIDFaster s rowID = Inr (ts (TSRuns s ! i))"
    "GetTSFromRowID s rowID = Inr (ts (TSRuns s ! i))"
    "ts (TSRuns s ! i) = rle_TS (rows ! nat (rowID - 1))" by blast
  with s show ?thesis by (metis imageI nth_mem)
qed

theorem rle_lookup_agreement_witness:
  "\<exists>s. rle_AppendRows InitRLE rle_test_rows = Inr s
     \<and> GetTSFromRowID s 4 = Inr ''10:00:02'' \<and> GetTSFromRowIDFaster s 4 = Inr ''10:00:02''"
proof -
  have "int (length rle_test_rows) = 6" by (simp add: rle_test_rows_def)
  with rle_lookup_agreement [of 4 rle_test_rows] obtain s k where
    s: "rle_AppendRows InitRLE rle_test_rows = Inr s"
    and k: "GetTSFromRowID s 4 = Inr k" "GetTSFromRowIDFaster s 4 = Inr k" by auto
  from s have "s = \<lparr>rle_idList = [1, 2, 3, 4, 5, 6], valueList = [100, 200, 300, 400, 500, 600],
          TSRuns = [\<lparr>ts = ''10:00:00'', count = 2\<rparr>, \<lparr>ts = ''10:00:02'', count = 3\<rparr>,
                    \<lparr>ts = ''10:00:03'', count = 1\<rparr>],
          tsRunEnds = [2, 5, 6]\<rparr>" by (simp add: rle_test_state)
  then have "GetTSFromRowID s 4 = Inr ''10:00:02''" by (simp add: GetTSFromRowID_def)
  with s k show ?thesis by auto
qed

text \<open>
  C4. \<^verbatim>\<open>GetTSFromRowIDFaster\<close> outside the valid range. On the fresh encoder no row id is
  valid, and for \<open>rowID = 1\<close> the range test reads \<^verbatim>\<open>tsRunEnds[len(tsRunEnds)-1]\<close>, that
  is \<^verbatim>\<open>tsRunEnds[-1]\<close>, of the empty slice: the call panics instead of returning the
  empty string, which the linear \<^verbatim>\<open>GetTSFromRowID\<close> returns on the same input.
  (\<open>GetTSFromRowIDFaster_out_of_range\<close> above: once a row has been appended, every
  out-of-range id gives the empty string.)
\<close>

theorem GetTSFromRowIDFaster_empty_encoder:
  "GetTSFromRowIDFaster InitRLE 1 = Inl (Panic IndexOutOfRange)
   \<and> GetTSFromRowID InitRLE 1 = Inr ''''"
  by (simp add: GetTSFromRowIDFaster_def GetTSFromRowID_def InitRLE_def index_def)

text \<open>
  C5. Agreement of the two count-by-key strategies. For every state reached by appending
  rows to a fresh RLE encoder whose runs are ordered by key, \<^verbatim>\<open>GetCountofTS\<close> and
  \<^verbatim>\<open>GetCountofTSFaster\<close> return the same result for every key: the count of the run with
  that key when the key is present in a run, the error \<open>KeyNotFound\<close> when it is absent.
\<close>

theorem rle_count_agreement:
  "\<exists>s. rle_AppendRows InitRLE rows = Inr s
     \<and> (sorted (map ts (TSRuns s)) \<longrightarrow>
          (\<forall>k. GetCountofTSFaster s k = GetCountofTS s k
             \<and> (if k \<in> ts ` set (TSRuns s)
                then \<exists>r\<in>set (TSRuns s). ts r = k \<and> GetCountofTS s k = Inr (count r)
                else GetCountofTS s k = Inl (KeyNotFound k))))"
proof -
  obtain s where s: "rle_AppendRows InitRLE rows = Inr s" and inv: "rle_inv rows s"
    using rle_AppendRows_inv by blast
  have "GetCountofTSFaster s k = GetCountofTS s k
             \<and> (if k \<in> ts ` set (TSRuns s)
                then \<exists>r\<in>set (TSRuns s). ts r = k \<and> GetCountofTS s k = Inr (count r)
                else GetCountofTS s k = Inl (KeyNotFound k))"
    if srt: "sorted (map ts (TSRuns s))" for k
  proof -
    have "distinct_adj (map ts (TSRuns s))" using inv by (simp add: rle_inv_def)
    with srt have "sorted_wrt (<) (map ts (TSRuns s))" by (rule sorted_distinct_adj_strict)
    from count_by_key_strict [OF this, of k] show ?thesis
      by (simp add: GetCountofTS_def GetCountofTSFaster_def)
  qed
  with s show ?thesis by blast
qed

theorem rle_count_agreement_witness:
  "\<exists>s. rle_AppendRows InitRLE rle_test_rows = Inr s
     \<and> sorted (map ts (TSRuns s))
     \<and> GetCountofTS s ''10:00:02'' = Inr 3 \<and> GetCountofTSFaster s ''10:00:02'' = Inr 3
     \<and> GetCountofTS s ''10:00:01'' = Inl (KeyNotFound ''10:00:01'')
     \<and> GetCountofTSFaster s ''10:00:01'' = Inl (KeyNotFound ''10:00:01'')"
proof -
  from rle_count_agreement [of rle_test_rows] obtain s where
    s: "rle_AppendRows InitRLE rle_test_rows = Inr s"
    and agree: "sorted (map ts (TSRuns s)) \<Longrightarrow> GetCountofTSFaster s k = GetCountofTS s k" for k
    by blast
  from s have st: "s = \<lparr>rle_idList = [1, 2, 3, 4, 5, 6], valueList = [100, 200, 300, 400, 500, 600],
          TSRuns = [\<lparr>ts = ''10:00:00'', count = 2\<rparr>, \<lparr>ts = ''10:00:02'', count = 3\<rparr>,
                    \<lparr>ts = ''10:00:03'', count = 1\<rparr>],
          tsRunEnds = [2, 5, 6]\<rparr>" by (simp add: rle_test_state)
  have srt: "sorted (map ts (TSRuns s))" by (simp add: st)
  have "GetCountofTS s ''10:00:02'' = Inr 3"
    "GetCountofTS s ''10:00:01'' = Inl (KeyNotFound ''10:00:01'')"
    by (simp_all add: st GetCountofTS_def)
  with s srt agree [OF srt] show ?thesis by auto
qed

text \<open>
  C6. Without the sorted-key precondition \<^verbatim>\<open>GetCountofTSFaster\<close> misbehaves. There is
  an append sequence with keys out of order and a key present in the runs for which the
  binary search returns \<open>KeyNotFound\<close> while the linear scan finds the key; and there is
  one for which the two return different counts.
\<close>

theorem count_fast_unsorted_disagrees:
  "(\<exists>rows s k c. \<not> sorted (map rle_TS rows) \<and> rle_AppendRows InitRLE rows = Inr s
       \<and> \<not> sorted (map ts (TSRuns s)) \<and> k \<in> ts ` set (TSRuns s)
       \<and> GetCountofTS s k = Inr c \<and> GetCountofTSFaster s k = Inl (KeyNotFound k))
   \<and> (\<exists>rows s k c c'. \<not> sorted (map rle_TS rows) \<and> rle_AppendRows InitRLE rows = Inr s
       \<and> \<not> sorted (map ts (TSRuns s)) \<and> k \<in> ts ` set (TSRuns s)
       \<and> GetCountofTS s k = Inr c \<and> GetCountofTSFaster s k = Inr c' \<and> c \<noteq> c')"
proof
  let ?rows = "[\<lparr>rle_ID = 1, rle_Value = 100, rle_TS = ''10:00:02''\<rparr>,
                \<lparr>rle_ID = 2, rle_Value = 200, rle_TS = ''10:00:00''\<rparr>]"
  let ?s = "\<lparr>rle_idList = [1, 2], valueList = [100, 200],
             TSRuns = [\<lparr>ts = ''10:00:02'', count = 1\<rparr>, \<lparr>ts = ''10:00:00'', count = 1\<rparr>],
             tsRunEnds = [1, 2]\<rparr>"
  have "\<not> sorted (map rle_TS ?rows)" by simp
  moreover have "rle_AppendRows InitRLE ?rows = Inr ?s"
    by (simp add: InitRLE_def rle_AppendRow_def Let_def)
  moreover have "\<not> sorted (map ts (TSRuns ?s))" by simp
  moreover have "''10:00:00'' \<in> ts ` set (TSRuns ?s)" by simp
  moreover have "GetCountofTS ?s ''10:00:00'' = Inr 1" by (simp add: GetCountofTS_def)
  moreover have "GetCountofTSFaster ?s ''10:00:00'' = Inl (KeyNotFound ''10:00:00'')"
    by (simp add: GetCountofTSFaster_def GetCountofTSFaster_loop.simps index_def sdiv_2_nonneg)
  ultimately show "\<exists>rows s k c. \<not> sorted (map rle_TS rows) \<and> rle_AppendRows InitRLE rows = Inr s
       \<and> \<not> sorted (map ts (TSRuns s)) \<and> k \<in> ts ` set (TSRuns s)
       \<and> GetCountofTS s k = Inr c \<and> GetCountofTSFaster s k = Inl (KeyNotFound k)"
    by blast
next
  let ?rows = "[\<lparr>rle_ID = 1, rle_Value = 100, rle_TS = ''10:00:02''\<rparr>,
                \<lparr>rle_ID = 2, rle_Value = 200, rle_TS = ''10:00:00''\<rparr>,
                \<lparr>rle_ID = 3, rle_Value = 300, rle_TS = ''10:00:02''\<rparr>,
                \<lparr>rle_ID = 4, rle_Value = 400, rle_TS = ''10:00:02''\<rparr>]"
  let ?s = "\<lparr>rle_idList = [1, 2, 3, 4], valueList = [100, 200, 300, 400],
             TSRuns = [\<lparr>ts = ''10:00:02'', count = 1\<rparr>, \<lparr>ts = ''10:00:00'', count = 1\<rparr>,
                       \<lparr>ts = ''10:00:02'', count = 2\<rparr>],
             tsRunEnds = [1, 2, 4]\<rparr>"
  have "\<not> sorted (map rle_TS ?rows)" by simp
  moreover have "rle_AppendRows InitRLE ?rows = Inr ?s"
    by (simp add: InitRLE_def rle_AppendRow_def Let_def)
  moreover have "\<not> sorted (map ts (TSRuns ?s))" by simp
  moreover have "''10:00:02'' \<in> ts ` set (TSRuns ?s)" by simp
  moreover have "GetCountofTS ?s ''10:00:02'' = Inr 1" by (simp add: GetCountofTS_def)
  moreover have "GetCountofTSFaster ?s ''10:00:02'' = Inr 2"
    by (simp add: GetCountofTSFaster_def GetCountofTSFaster_loop.simps index_def sdiv_2_nonneg)
  moreover have "(1::int) \<noteq> 2" by simp
  ultimately show "\<exists>rows s k c c'. \<not> sorted (map rle_TS rows) \<and> rle_AppendRows InitRLE rows = Inr s
       \<and> \<not> sorted (map ts (TSRuns s)) \<and> k \<in> ts ` set (TSRuns s)
       \<and> GetCountofTS s k = Inr c \<and> GetCountofTSFaster s k = Inr c' \<and> c \<noteq> c'"
    by blast
qed

text \<open>
  C7. Boundary behaviour. For an RLE encoder and a delta encoder holding \<open>n\<close> appended
  rows, \<^verbatim>\<open>ReconstructRow(0)\<close>, \<^verbatim>\<open>ReconstructRow(-1)\<close> and \<^verbatim>\<open>ReconstructRow(n+1)\<close> return
  the error \<open>RowNotFound\<close>. \<^verbatim>\<open>ReconstructRow\<close> assigns to no field of its receiver, so it is
  a function of the state that returns a result only: the state is the same after the call.
  \<^verbatim>\<open>VerifyDeltaEncodingCorrectness\<close> of the fresh delta encoder returns true.
\<close>

theorem boundary_behaviour:
  "\<exists>rle de. rle_AppendRows InitRLE rrows = Inr rle \<and> de_AppendRows InitDE drows = Inr de
     \<and> rle_ReconstructRow rle 0 = Inl (RowNotFound 0)
     \<and> rle_ReconstructRow rle (- 1) = Inl (RowNotFound (- 1))
     \<and> rle_ReconstructRow rle (int (length rrows) + 1) = Inl (RowNotFound (int (length rrows) + 1))
     \<and> de_ReconstructRow de 0 = Inl (RowNotFound 0)
     \<and> de_ReconstructRow de (- 1) = Inl (RowNotFound (- 1))
     \<and> de_ReconstructRow de (int (length drows) + 1) = Inl (RowNotFound (int (length drows) + 1))
     \<and> VerifyDeltaEncodingCorrectness InitDE = Inr True"
proof -
  obtain rle where rle: "rle_AppendRows InitRLE rrows = Inr rle" and rinv: "rle_inv rrows rle"
    using rle_AppendRows_inv by blast
  obtain de where de: "de_AppendRows InitDE drows = Inr de" and dinv: "de_inv 4 drows de"
    using de_AppendRows_inv by blast
  have rlen: "length (rle_idList rle) = length rrows" using rinv by (simp add: rle_inv_def)
  have dlen: "length (de_idList de) = length drows" using dinv by (simp add: de_inv_def)
  have "rle_ReconstructRow rle 0 = Inl (RowNotFound 0)"
    "rle_ReconstructRow rle (- 1) = Inl (RowNotFound (- 1))"
    "rle_ReconstructRow rle (int (length rrows) + 1) = Inl (RowNotFound (int (length rrows) + 1))"
    using rlen by (simp_all add: rle_ReconstructRow_out_of_range)
  moreover have "de_ReconstructRow de 0 = Inl (RowNotFound 0)"
    "de_ReconstructRow de (- 1) = Inl (RowNotFound (- 1))"
    "de_ReconstructRow de (int (length drows) + 1) = Inl (RowNotFound (int (length drows) + 1))"
    using dlen by (simp_all add: de_ReconstructRow_out_of_range)
  ultimately show ?thesis using rle de Verify_InitDE by blast
qed

theorem boundary_behaviour_witness:
  "\<exists>rle de. rle_AppendRows InitRLE rle_test_rows = Inr rle
     \<and> de_AppendRows InitDE de_test_rows = Inr de
     \<and> rle_ReconstructRow rle 0 = Inl (RowNotFound 0)
     \<and> rle_ReconstructRow rle (- 1) = Inl (RowNotFound (- 1))
     \<and> rle_ReconstructRow rle 7 = Inl (RowNotFound 7)
     \<and> de_ReconstructRow de 0 = Inl (RowNotFound 0)
     \<and> de_ReconstructRow de (- 1) = Inl (RowNotFound (- 1))
     \<and> de_ReconstructRow de 11 = Inl (RowNotFound 11)"
proof -
  have "int (length rle_test_rows) + 1 = 7" "int (length de_test_rows) + 1 = 11"
    by (simp_all add: rle_test_rows_def de_test_rows_def)
  with boundary_behaviour [of rle_test_rows de_test_rows] show ?thesis by auto
qed

text \<open>
  C8. Run-merge invariant of the RLE encoder. Every sequence of \<^verbatim>\<open>AppendRow\<close> calls on a
  fresh encoder succeeds and leaves a state in which \<^verbatim>\<open>tsRunEnds\<close> is parallel to
  \<^verbatim>\<open>TSRuns\<close> and strictly increasing, its last entry is \<^verbatim>\<open>len(idList)\<close> (and it is
  empty when no row was appended), and no two adjacent runs have the same key.
  Consequently a block of \<open>k \<ge> 1\<close> consecutive rows with one key \<open>t\<close>, appended after
  rows that do not end with key \<open>t\<close> (or after none), is exactly one run \<open>(t, k)\<close> at the
  end of the runs.
\<close>

theorem rle_run_merge_invariant:
  "\<exists>s. rle_AppendRows InitRLE rows = Inr s
     \<and> length (rle_idList s) = length rows
     \<and> length (tsRunEnds s) = length (TSRuns s)
     \<and> sorted_wrt (<) (tsRunEnds s)
     \<and> (if rows = [] then tsRunEnds s = []
        else tsRunEnds s \<noteq> [] \<and> last (tsRunEnds s) = int (length (rle_idList s)))
     \<and> distinct_adj (map ts (TSRuns s))
     \<and> (\<forall>pre blk t.
          rows = pre @ blk \<and> blk \<noteq> [] \<and> (\<forall>row\<in>set blk. rle_TS row = t)
            \<and> (pre = [] \<or> rle_TS (last pre) \<noteq> t)
          \<longrightarrow> (\<exists>s0. rle_AppendRows InitRLE pre = Inr s0
                 \<and> TSRuns s = TSRuns s0 @ [\<lparr>ts = t, count = int (length blk)\<rparr>]))"
proof -
  obtain s where s: "rle_AppendRows InitRLE rows = Inr s" and inv: "rle_inv rows s"
    using rle_AppendRows_inv by blast
  have ends: "tsRunEnds s = run_ends 0 (TSRuns s)"
    and pos: "list_all (\<lambda>r. 1 \<le> count r) (TSRuns s)"
    and total: "sum_list (map count (TSRuns s)) = int (length rows)"
    using inv by (simp_all add: rle_inv_def)
  have 1: "length (rle_idList s) = length rows" using inv by (simp add: rle_inv_def)
  have 2: "length (tsRunEnds s) = length (TSRuns s)" by (simp add: ends)
  have 3: "sorted_wrt (<) (tsRunEnds s)" using run_ends_sorted [OF pos] by (simp add: ends)
  have 4: "if rows = [] then tsRunEnds s = []
           else tsRunEnds s \<noteq> [] \<and> last (tsRunEnds s) = int (length (rle_idList s))"
  proof (cases "rows = []")
    case True
    then show ?thesis using inv by (simp add: rle_inv_def)
  next
    case False
    then have ne: "TSRuns s \<noteq> []" using inv by (simp add: rle_inv_def)
    then have "last (tsRunEnds s) = tsRunEnds s ! (length (TSRuns s) - 1)"
      by (simp add: last_conv_nth ends)
    also have "\<dots> = int (length rows)"
      using run_ends_last_nth [OF ne, of 0] total by (simp add: ends)
    finally show ?thesis using False ne 1 by (simp add: ends)
  qed
  have 5: "distinct_adj (map ts (TSRuns s))" using inv by (simp add: rle_inv_def)
  have 6: "\<exists>s0. rle_AppendRows InitRLE pre = Inr s0
                 \<and> TSRuns s = TSRuns s0 @ [\<lparr>ts = t, count = int (length blk)\<rparr>]"
    if "rows = pre @ blk \<and> blk \<noteq> [] \<and> (\<forall>row\<in>set blk. rle_TS row = t)
            \<and> (pre = [] \<or> rle_TS (last pre) \<noteq> t)" for pre blk t
  proof -
    obtain s0 where s0: "rle_AppendRows InitRLE pre = Inr s0" "rle_inv pre s0"
      using rle_AppendRows_inv by blast
    from that rle_AppendRows_new_block [OF s0(2), of blk t] obtain s' where
      s': "rle_AppendRows s0 blk = Inr s'"
          "TSRuns s' = TSRuns s0 @ [\<lparr>ts = t, count = int (length blk)\<rparr>]" by blast
    have "rle_AppendRows InitRLE (pre @ blk) = Inr s'"
      using s0(1) s'(1) by (simp add: rle_AppendRows_append)
    with s that have "s' = s" by simp
    with s0(1) s'(2) show ?thesis by blast
  qed
  from s 1 2 3 4 5 6 show ?thesis by blast
qed

theorem rle_run_merge_invariant_witness:
  "\<exists>s. rle_AppendRows InitRLE rle_test_rows = Inr s
     \<and> TSRuns s = [\<lparr>ts = ''10:00:00'', count = 2\<rparr>, \<lparr>ts = ''10:00:02'', count = 3\<rparr>,
                   \<lparr>ts = ''10:00:03'', count = 1\<rparr>]
     \<and> sorted_wrt (<) (tsRunEnds s) \<and> last (tsRunEnds s) = 6
     \<and> distinct_adj (map ts (TSRuns s))"
proof -
  from rle_run_merge_invariant [of rle_test_rows] obtain s where
    s: "rle_AppendRows InitRLE rle_test_rows = Inr s"
    and len: "length (rle_idList s) = length rle_test_rows"
    and srt: "sorted_wrt (<) (tsRunEnds s)"
    and lst: "if rle_test_rows = [] then tsRunEnds s = []
        else tsRunEnds s \<noteq> [] \<and> last (tsRunEnds s) = int (length (rle_idList s))"
    and adj: "distinct_adj (map ts (TSRuns s))"
    and blk: "\<And>pre blk t. rle_test_rows = pre @ blk \<and> blk \<noteq> [] \<and> (\<forall>row\<in>set blk. rle_TS row = t)
            \<and> (pre = [] \<or> rle_TS (last pre) \<noteq> t)
          \<Longrightarrow> (\<exists>s0. rle_AppendRows InitRLE pre = Inr s0
                 \<and> TSRuns s = TSRuns s0 @ [\<lparr>ts = t, count = int (length blk)\<rparr>])"
    by blast
  have "\<exists>s0. rle_AppendRows InitRLE (take 5 rle_test_rows) = Inr s0
           \<and> TSRuns s = TSRuns s0 @ [\<lparr>ts = ''10:00:03'', count = int (length (drop 5 rle_test_rows))\<rparr>]"
    by (rule blk) (simp add: rle_test_rows_def)
  then have "TSRuns s = [\<lparr>ts = ''10:00:00'', count = 2\<rparr>, \<lparr>ts = ''10:00:02'', count = 3\<rparr>,
                   \<lparr>ts = ''10:00:03'', count = 1\<rparr>]"
    by (auto simp: rle_test_rows_def InitRLE_def rle_AppendRow_def Let_def)
  moreover have "last (tsRunEnds s) = 6" using lst len by (simp add: rle_test_rows_def)
  ultimately show ?thesis using s srt adj by blast
qed

text \<open>
  C9. Number of checkpoints. After \<open>n > 0\<close> \<^verbatim>\<open>AppendRow\<close> calls on a fresh encoder,
  \<^verbatim>\<open>checkpointValues\<close> and \<^verbatim>\<open>checkpointTs\<close> each have \<open>1 + n div checkpointInterval\<close>
  entries.
\<close>

theorem checkpoint_count:
  assumes "rows \<noteq> []"
  shows "\<exists>de. de_AppendRows InitDE rows = Inr de \<and> checkpointInterval de = 4
     \<and> length (checkpointValues de) = 1 + length rows div nat (checkpointInterval de)
     \<and> length (checkpointTs de) = 1 + length rows div nat (checkpointInterval de)"
proof -
  obtain de where de: "de_AppendRows InitDE rows = Inr de" and inv: "de_inv 4 rows de"
    using de_AppendRows_inv by blast
  then show ?thesis using assms by (auto simp: de_inv_def checkpoints_of_def)
qed

theorem checkpoint_count_witness:
  "de_test_rows \<noteq> []
   \<and> (\<exists>de. de_AppendRows InitDE de_test_rows = Inr de
          \<and> length (checkpointValues de) = 3 \<and> length (checkpointTs de) = 3)"
proof -
  have ne: "de_test_rows \<noteq> []" by (simp add: de_test_rows_def)
  from checkpoint_count [OF ne] obtain de where
    "de_AppendRows InitDE de_test_rows = Inr de" "checkpointInterval de = 4"
    "length (checkpointValues de) = 1 + length de_test_rows div nat (checkpointInterval de)"
    "length (checkpointTs de) = 1 + length de_test_rows div nat (checkpointInterval de)"
    by blast
  then have "de_AppendRows InitDE de_test_rows = Inr de
          \<and> length (checkpointValues de) = 3 \<and> length (checkpointTs de) = 3"
    by (simp add: de_test_rows_def)
  with ne show ?thesis by blast
qed

text \<open>
  C10. The id of a reconstructed row. Whatever the state, a row returned by the delta
  encoder's \<^verbatim>\<open>ReconstructRow(rowID)\<close> has the id \<open>rowID\<close>. After any sequence of appends to
  a fresh encoder, \<^verbatim>\<open>ReconstructRow(i)\<close> for \<open>i\<close> in \<open>[1, n]\<close> returns the value and
  timestamp of the \<open>i\<close>-th appended row with the id \<open>i\<close>, not the appended id stored in
  \<^verbatim>\<open>idList\<close>; and \<^verbatim>\<open>ReconstructTable\<close>, which reconstructs each stored id, returns
  \<open>RowNotFound\<close> for the first stored id outside \<open>[1, n]\<close>, and otherwise the rows at the
  positions the stored ids name. So where the id a row was appended with is not its
  position, the reconstructed row is not the appended row, and a stored id outside
  \<open>[1, n]\<close> makes \<^verbatim>\<open>ReconstructTable\<close> fail.
\<close>

theorem reconstruct_id_is_argument:
  "(\<forall>de i r. de_ReconstructRow de i = Inr r \<longrightarrow> de_ID r = i)
   \<and> (\<exists>de. de_AppendRows InitDE rows = Inr de \<and> de_idList de = map de_ID rows
        \<and> (\<forall>i. 1 \<le> i \<and> i \<le> int (length rows) \<longrightarrow>
               de_ReconstructRow de i = Inr ((rows ! nat (i - 1))\<lparr>de_ID := i\<rparr>))
        \<and> (\<forall>i. 1 \<le> i \<and> i \<le> int (length rows) \<and> de_ID (rows ! nat (i - 1)) \<noteq> i \<longrightarrow>
               de_ReconstructRow de i \<noteq> Inr (rows ! nat (i - 1)))
        \<and> ReconstructTable de =
            (case find (\<lambda>x. x \<le> 0 \<or> int (length rows) < x) (de_idList de) of
               Some x \<Rightarrow> Inl (RowNotFound x)
             | None \<Rightarrow> Inr (map (\<lambda>i. (rows ! nat (i - 1))\<lparr>de_ID := i\<rparr>) (de_idList de)))
        \<and> ((\<exists>x\<in>set (de_idList de). x \<le> 0 \<or> int (length rows) < x) \<longrightarrow>
             (\<exists>x\<in>set (de_idList de). (x \<le> 0 \<or> int (length rows) < x)
                \<and> ReconstructTable de = Inl (RowNotFound x))))"
proof -
  obtain de where de: "de_AppendRows InitDE rows = Inr de" and inv: "de_inv 4 rows de"
    using de_AppendRows_inv by blast
  have ids: "de_idList de = map de_ID rows" using inv by (simp add: de_inv_def)
  have row: "\<forall>i. 1 \<le> i \<and> i \<le> int (length rows) \<longrightarrow>
               de_ReconstructRow de i = Inr ((rows ! nat (i - 1))\<lparr>de_ID := i\<rparr>)"
    using de_ReconstructRow_update [OF inv] by blast
  have differ: "\<forall>i. 1 \<le> i \<and> i \<le> int (length rows) \<and> de_ID (rows ! nat (i - 1)) \<noteq> i \<longrightarrow>
               de_ReconstructRow de i \<noteq> Inr (rows ! nat (i - 1))"
    using de_ReconstructRow_id by blast
  have tab: "ReconstructTable de =
            (case find (\<lambda>x. x \<le> 0 \<or> int (length rows) < x) (de_idList de) of
               Some x \<Rightarrow> Inl (RowNotFound x)
             | None \<Rightarrow> Inr (map (\<lambda>i. (rows ! nat (i - 1))\<lparr>de_ID := i\<rparr>) (de_idList de)))"
    using ReconstructTable_loop_inv [OF inv, of "de_idList de" "[]"]
    by (simp add: ReconstructTable_def split: option.splits)
  have fails: "\<exists>x\<in>set (de_idList de). (x \<le> 0 \<or> int (length rows) < x)
                \<and> ReconstructTable de = Inl (RowNotFound x)"
    if "\<exists>x\<in>set (de_idList de). x \<le> 0 \<or> int (length rows) < x"
  proof -
    from that obtain x where
      x: "find (\<lambda>x. x \<le> 0 \<or> int (length rows) < x) (de_idList de) = Some x"
      by (cases "find (\<lambda>x. x \<le> 0 \<or> int (length rows) < x) (de_idList de)")
         (auto simp: find_None_iff)
    then have "x \<in> set (de_idList de)" "x \<le> 0 \<or> int (length rows) < x"
      by (auto simp: find_Some_iff)
    with x tab show ?thesis by auto
  qed
  from de ids row differ tab fails de_ReconstructRow_id show ?thesis by blast
qed

theorem reconstruct_id_is_argument_witness:
  "\<exists>de. de_AppendRows InitDE [\<lparr>de_ID = 5, de_Value = 7, de_TS = 9\<rparr>] = Inr de
     \<and> de_idList de = [5]
     \<and> de_ReconstructRow de 1 = Inr \<lparr>de_ID = 1, de_Value = 7, de_TS = 9\<rparr>
     \<and> ReconstructTable de = Inl (RowNotFound 5)"
proof -
  from reconstruct_id_is_argument [of "[\<lparr>de_ID = 5, de_Value = 7, de_TS = 9\<rparr>]"]
  obtain de where de: "de_AppendRows InitDE [\<lparr>de_ID = 5, de_Value = 7, de_TS = 9\<rparr>] = Inr de"
    and ids: "de_idList de = map de_ID [\<lparr>de_ID = 5, de_Value = 7, de_TS = 9\<rparr>]"
    and row: "\<And>i. 1 \<le> i \<and> i \<le> int (length [\<lparr>de_ID = 5, de_Value = 7, de_TS = 9\<rparr>]) \<Longrightarrow>
               de_ReconstructRow de i
               = Inr (([\<lparr>de_ID = 5, de_Value = 7, de_TS = 9\<rparr>] ! nat (i - 1))\<lparr>de_ID := i\<rparr>)"
    and tab: "ReconstructTable de =
            (case find (\<lambda>x. x \<le> 0 \<or> int (length [\<lparr>de_ID = 5, de_Value = 7, de_TS = 9\<rparr>]) < x)
                    (de_idList de) of
               Some x \<Rightarrow> Inl (RowNotFound x)
             | None \<Rightarrow> Inr (map (\<lambda>i. ([\<lparr>de_ID = 5, de_Value = 7, de_TS = 9\<rparr>] ! nat (i - 1))\<lparr>de_ID := i\<rparr>)
                            (de_idList de)))"
    by blast
  have "de_ReconstructRow de 1 = Inr \<lparr>de_ID = 1, de_Value = 7, de_TS = 9\<rparr>"
    using row [of 1] by simp
  moreover have "ReconstructTable de = Inl (RowNotFound 5)"
    using tab ids by simp
  ultimately show ?thesis using de ids by auto
qed

end
